theory Spec2Isabelle
  imports Complex_Main "HOL-Library.Log_Nat"
begin

section \<open>Evolutionary search of CINN's auto-scheduler\<close>

text \<open>
  A shallow embedding of \<^verbatim>\<open>cinn/auto_schedule/search_strategy/evolutionary_search.cc\<close>.
  The state of an \<^verbatim>\<open>EvolutionarySearch\<close> object (its \<^verbatim>\<open>rand_seed_\<close>, its
  \<^verbatim>\<open>search_space_\<close> and its \<^verbatim>\<open>visited_candidates_\<close>) is passed explicitly, a failing
  \<^verbatim>\<open>CHECK\<close> is an error value, and a loop that need not end returns \<open>None\<close>.
\<close>

subsection \<open>The epsilon-greedy pick\<close>

text \<open>
  \<^verbatim>\<open>eps_greedy\<close> is a \<^verbatim>\<open>float\<close>. A finite binary32 value is a significand of at most 24
  bits times a power of two, with exponents from \<open>-149\<close> to \<open>104\<close>; infinities and NaN
  are not values of the model.
\<close>

record float32 =
  significand :: int
  exponent :: int

definition float_value :: "float32 \<Rightarrow> real" where
  "float_value f =
     (if 0 \<le> exponent f then real_of_int (significand f * 2 ^ nat (exponent f))
      else real_of_int (significand f) / 2 ^ nat (- exponent f))"

definition is_float32 :: "float32 \<Rightarrow> bool" where
  "is_float32 f = (\<bar>significand f\<bar> < 2 ^ 24 \<and> - 149 \<le> exponent f \<and> exponent f \<le> 104)"

text \<open>
  The quotient \<open>m / 2 ^ k\<close> rounded to the nearest integer, a tie to the even one: the
  rounding of binary32 arithmetic.
\<close>

definition round_to_nearest_even :: "int \<Rightarrow> nat \<Rightarrow> int" where
  "round_to_nearest_even m k =
     (let q = m div 2 ^ k; r = m mod 2 ^ k
      in if 2 * r < 2 ^ k then q
         else if 2 ^ k < 2 * r then q + 1
         else if even q then q else q + 1)"

text \<open>
  The exact value \<open>m * 2 ^ e\<close> rounded to binary32: the significand keeps 24 bits and the
  exponent does not go below \<open>-149\<close>. A value beyond the largest finite one, which
  binary32 rounds to infinity, stays finite here; no product of an \<^verbatim>\<open>int\<close> and a
  fraction between 0 and 1 is that large.
\<close>

definition round_binary32 :: "int \<Rightarrow> int \<Rightarrow> float32" where
  "round_binary32 m e =
     (let k = max (bitlen \<bar>m\<bar> - 24) (- 149 - e)
      in if k \<le> 0 then \<lparr>significand = m, exponent = e\<rparr>
         else \<lparr>significand = round_to_nearest_even m (nat k), exponent = e + k\<rparr>)"

text \<open>
  \<^verbatim>\<open>int num_rands = num * eps_greedy;\<close> converts \<^verbatim>\<open>num\<close> to \<^verbatim>\<open>float\<close>, multiplies in
  binary32 and converts the product to \<^verbatim>\<open>int\<close>: each of the first two steps rounds to
  nearest, and the last truncates toward zero.
\<close>

definition int_to_float :: "int \<Rightarrow> float32" where
  "int_to_float n = round_binary32 n 0"

definition float_mul :: "float32 \<Rightarrow> float32 \<Rightarrow> float32" where
  "float_mul a b = round_binary32 (significand a * significand b) (exponent a + exponent b)"

definition float_to_int :: "float32 \<Rightarrow> int" where
  "float_to_int f =
     (if 0 \<le> exponent f then significand f * 2 ^ nat (exponent f)
      else if 0 \<le> significand f then significand f div 2 ^ nat (- exponent f)
      else - ((- significand f) div 2 ^ nat (- exponent f)))"

definition num_rands_of :: "int \<Rightarrow> float32 \<Rightarrow> int" where
  "num_rands_of num eps_greedy = float_to_int (float_mul (int_to_float num) eps_greedy)"

definition num_bests_of :: "int \<Rightarrow> float32 \<Rightarrow> int" where
  "num_bests_of num eps_greedy = num - num_rands_of num eps_greedy"

text \<open>
  \<^verbatim>\<open>result.size() < num\<close> compares a \<^verbatim>\<open>size_t\<close> with an \<^verbatim>\<open>int\<close>: the \<^verbatim>\<open>int\<close> is
  converted to the unsigned 64-bit type, so a negative bound becomes a huge one.
\<close>

definition size_t_of_int :: "int \<Rightarrow> nat" where
  "size_t_of_int n = (if 0 \<le> n then nat n else nat (2 ^ 64 + n))"

text \<open>
  The body of \<^verbatim>\<open>if (!visited_candidates_.count(selected))\<close>: a candidate whose key is not
  in the visited set is recorded there and appended to the result; any other candidate is
  only counted (\<^verbatim>\<open>deduplicated_cnt\<close>, which is logged and nothing else, is left out).
  The set compares states with \<^verbatim>\<open>SearchStateHash\<close> and \<^verbatim>\<open>SearchStateEqual\<close>, which are
  declared outside the translated file: \<open>fp\<close> is the key they compare, the fingerprint of
  the scheduled IR.
\<close>

definition deduplicate :: "('a \<Rightarrow> 'k) \<Rightarrow> 'a \<Rightarrow> 'a list \<times> 'k set \<Rightarrow> 'a list \<times> 'k set" where
  "deduplicate fp selected rv =
     (if fp selected \<notin> snd rv then (fst rv @ [selected], insert (fp selected) (snd rv))
      else rv)"

text \<open>
  The \<^verbatim>\<open>while (result.size() < num)\<close> loop of \<^verbatim>\<open>PickNextGenerationEpsGreedy\<close>, on the
  loop variables \<^verbatim>\<open>result\<close>, \<^verbatim>\<open>visited_candidates_\<close>, \<^verbatim>\<open>best_idx\<close> and \<^verbatim>\<open>rand_idx\<close>.
\<close>

function pick_loop ::
  "('a \<Rightarrow> 'k) \<Rightarrow> 'a list \<Rightarrow> 'a list \<Rightarrow> int \<Rightarrow> int \<Rightarrow> 'a list \<times> 'k set \<Rightarrow> nat \<Rightarrow> nat
    \<Rightarrow> 'a list \<times> 'k set" where
  "pick_loop fp picked_bests random_init num num_bests rv best_idx rand_idx =
     (if \<not> length (fst rv) < size_t_of_int num then rv
      else if length (fst rv) < size_t_of_int num_bests \<and> best_idx < length picked_bests then
        pick_loop fp picked_bests random_init num num_bests
          (deduplicate fp (picked_bests ! best_idx) rv) (Suc best_idx) rand_idx
      else if rand_idx < length random_init then
        pick_loop fp picked_bests random_init num num_bests
          (deduplicate fp (random_init ! rand_idx) rv) best_idx (Suc rand_idx)
      else if best_idx < length picked_bests then
        pick_loop fp picked_bests random_init num num_bests
          (deduplicate fp (picked_bests ! best_idx) rv) (Suc best_idx) rand_idx
      else rv)"
  by pat_completeness auto
termination
  by (relation "measure (\<lambda>(fp, picked_bests, random_init, num, num_bests, rv, best_idx, rand_idx).
        (length picked_bests - best_idx) + (length random_init - rand_idx))") auto

declare pick_loop.simps [simp del]

definition PickNextGenerationEpsGreedy ::
  "('a \<Rightarrow> 'k) \<Rightarrow> 'k set \<Rightarrow> 'a list \<Rightarrow> 'a list \<Rightarrow> int \<Rightarrow> float32 \<Rightarrow> 'a list \<times> 'k set" where
  "PickNextGenerationEpsGreedy fp visited_candidates picked_bests random_init num eps_greedy =
     pick_loop fp picked_bests random_init num (num_bests_of num eps_greedy)
       ([], visited_candidates) 0 0"


text \<open>
  Successive calls of the pick on one \<^verbatim>\<open>EvolutionarySearch\<close> object: each round brings its
  own arguments, and \<^verbatim>\<open>visited_candidates_\<close> is what the previous round left. The
  lists returned by the rounds are collected in order.
\<close>

fun pick_rounds ::
  "('a \<Rightarrow> 'k) \<Rightarrow> 'k set \<Rightarrow> ('a list \<times> 'a list \<times> int \<times> float32) list
    \<Rightarrow> 'a list list \<times> 'k set" where
  "pick_rounds fp visited_candidates [] = ([], visited_candidates)"
| "pick_rounds fp visited_candidates ((picked_bests, random_init, num, eps_greedy) # rounds) =
     (let returned = PickNextGenerationEpsGreedy fp visited_candidates picked_bests random_init
                       num eps_greedy;
          later = pick_rounds fp (snd returned) rounds
      in (fst returned # fst later, snd later))"

text \<open>
  The pick as section 4.7.3 of the specification words it, for comparison with the loop:
  \<open>fill\<close> draws from one supply, in order, until \<open>k\<close> more candidates are kept or the
  supply is exhausted, skipping visited candidates and recording the kept ones; it also
  returns what is left of the supply. The first \<open>num_best\<close> slots are filled from the
  bests, the remaining slots from the randoms, and what is still open from the bests
  that are left.
\<close>

fun fill ::
  "('a \<Rightarrow> 'k) \<Rightarrow> nat \<Rightarrow> 'a list \<Rightarrow> 'a list \<times> 'k set \<Rightarrow> ('a list \<times> 'k set) \<times> 'a list" where
  "fill fp 0 xs rv = (rv, xs)"
| "fill fp (Suc k) [] rv = (rv, [])"
| "fill fp (Suc k) (x # xs) rv =
     (if fp x \<in> snd rv then fill fp (Suc k) xs rv
      else fill fp k xs (fst rv @ [x], insert (fp x) (snd rv)))"

definition eps_greedy_spec ::
  "('a \<Rightarrow> 'k) \<Rightarrow> 'k set \<Rightarrow> 'a list \<Rightarrow> 'a list \<Rightarrow> nat \<Rightarrow> nat \<Rightarrow> 'a list \<times> 'k set" where
  "eps_greedy_spec fp visited bests randoms num num_best =
     (let (rv1, bests_left) = fill fp num_best bests ([], visited);
          (rv2, randoms_left) = fill fp (num - length (fst rv1)) randoms rv1;
          (rv3, unused) = fill fp (num - length (fst rv2)) bests_left rv2
      in rv3)"

subsection \<open>Data of the search\<close>

text \<open>
  \<^verbatim>\<open>utils::LinearRandomEngine::StateType\<close>, the state of the random engine, is an integer.
\<close>

type_synonym rand_state = int

text \<open>
  How a call can end without a value: a failing \<^verbatim>\<open>CHECK\<close>, a trace that does not
  replay, an index outside its vector, a handle that points to no object.
\<close>

datatype error = CheckFailure | ReplayFailure | OutOfBounds | NullHandle

text \<open>
  An \<^verbatim>\<open>ir::IRSchedule\<close> is built from a module expression and a random state of its own;
  a \<^verbatim>\<open>SearchState\<close> holds a schedule and a predicted cost, \<open>None\<close> when the state was
  built without one.
\<close>

record 'e IRSchedule =
  module_expr :: "'e list"
  sch_rand_seed :: rand_state

record 'e SearchState =
  ir_schedule :: "'e IRSchedule"
  predicted_cost :: "real option"

record 't DatabaseRecord =
  trace :: 't
  record_predicted_cost :: real

record TuningOptions =
  num_samples_per_iteration :: int
  evolution_pick_database_topk :: int
  evolution_init_population_num :: int
  evolution_cross_over_num :: int
  evolution_eps_greedy :: float32

text \<open>
  The members \<^verbatim>\<open>rand_seed_\<close>, \<^verbatim>\<open>search_space_\<close> and \<^verbatim>\<open>visited_candidates_\<close> of
  \<^verbatim>\<open>EvolutionarySearch\<close>, which its methods change (the fields are named without the
  trailing underscore). The visited set holds the keys of the states put into it.
\<close>

record ('e, 's) EvolutionarySearch =
  rand_seed :: rand_state
  search_space :: 's
  visited_candidates :: "'e list set"

text \<open>
  Modelled from the spec: \<^verbatim>\<open>SearchStateHash\<close> and \<^verbatim>\<open>SearchStateEqual\<close> are declared in
  \<^verbatim>\<open>search_state.h\<close>, which is not among the sources. Section 3: equality and hashing
  are defined over a structural fingerprint of the scheduled IR.
\<close>

definition fingerprint :: "'e SearchState \<Rightarrow> 'e list" where
  "fingerprint st = module_expr (ir_schedule st)"

text \<open>
  What the file calls and does not define is a parameter of the model:
  the random engine (\<^verbatim>\<open>utils::SampleUniformInt\<close>, \<^verbatim>\<open>utils::ForkRandomState\<close>, which
  return the value drawn and the advanced state), the deep copy \<^verbatim>\<open>optim::IRCopy\<close>,
  the replay of a stored trace (which may fail), the database, the task registry, the
  search space (with a state \<open>'s\<close> of its own) and the order of \<^verbatim>\<open>SearchState\<close>.
\<close>

record ('e, 't, 's) collaborators =
  SampleUniformInt :: "int \<Rightarrow> int \<Rightarrow> rand_state \<Rightarrow> int \<times> rand_state"
  ForkRandomState :: "rand_state \<Rightarrow> rand_state \<times> rand_state"
  IRCopy :: "'e \<Rightarrow> 'e"
  ReplayWithProto :: "'t \<Rightarrow> 'e IRSchedule \<Rightarrow> error + 'e IRSchedule"
  GetTopK :: "string \<Rightarrow> int \<Rightarrow> 't DatabaseRecord list"
  registry_module_expr :: "string \<Rightarrow> 'e list"
  GenerateSketches :: "'s \<Rightarrow> int \<Rightarrow> string \<Rightarrow> 'e SearchState list \<times> 's"
  GetScheduleMutate :: "'s \<Rightarrow> 'e SearchState \<Rightarrow> 'e SearchState \<times> 's"
  state_less :: "'e SearchState \<Rightarrow> 'e SearchState \<Rightarrow> bool"

text \<open>
  Modelled from the spec: \<^verbatim>\<open>cinn/utils/random_engine.h\<close> is not among the sources.
  Section 4.1: \<^verbatim>\<open>sample_uniform_int(lo, hi_excl, &state)\<close> draws uniformly from the
  integers from \<open>lo\<close> up to \<open>hi_excl - 1\<close>. \<open>uniform_int_outcomes\<close> lists these equally
  likely values.
\<close>

definition uniform_int_outcomes :: "int \<Rightarrow> int \<Rightarrow> int list" where
  "uniform_int_outcomes lo hi_excl = [lo..hi_excl - 1]"

text \<open>
  Modelled from the spec: the draw is uniform (section 4.1), so the probability of a
  property of the value drawn is the share of the outcomes that have it.
\<close>

definition probability :: "('a \<Rightarrow> bool) \<Rightarrow> 'a list \<Rightarrow> real" where
  "probability P outcomes = real (length (filter P outcomes)) / real (length outcomes)"

text \<open>
  Modelled from the spec: what section 4.1 asks of \<^verbatim>\<open>utils::SampleUniformInt\<close>, whose
  definition is not among the sources: called with \<open>lo < hi\<close>, it returns one of the
  outcomes. \<^verbatim>\<open>Evolve\<close> relies on the upper bound being exclusive when it indexes
  \<^verbatim>\<open>population\<close> with \<^verbatim>\<open>SampleUniformInt(0, generation_num, &rand_seed_)\<close>.
\<close>

definition sampler_in_range :: "('e, 't, 's) collaborators \<Rightarrow> bool" where
  "sampler_in_range ext =
     (\<forall>lo hi s. lo < hi \<longrightarrow> fst (SampleUniformInt ext lo hi s) \<in> set (uniform_int_outcomes lo hi))"

subsection \<open>CrossOver\<close>

text \<open>
  The test \<^verbatim>\<open>utils::SampleUniformInt(0, 2, &rand_seed_) == 0\<close> on the value drawn.
\<close>

definition takes_father :: "int \<Rightarrow> bool" where
  "takes_father die = (die = 0)"

text \<open>
  The loop \<^verbatim>\<open>for (size_t i = 0; i < father_exprs.size(); ++i)\<close> of \<^verbatim>\<open>CrossOver\<close>, on
  \<^verbatim>\<open>i\<close>, \<^verbatim>\<open>cross_over_exprs\<close> and \<^verbatim>\<open>rand_seed_\<close>. It runs after the sizes were checked
  to be equal, so \<^verbatim>\<open>mother_exprs[i]\<close> is in range.
\<close>

function cross_over_loop ::
  "('e, 't, 's) collaborators \<Rightarrow> 'e list \<Rightarrow> 'e list \<Rightarrow> nat \<Rightarrow> 'e list \<Rightarrow> rand_state
    \<Rightarrow> 'e list \<times> rand_state" where
  "cross_over_loop ext father_exprs mother_exprs i cross_over_exprs rand =
     (if i < length father_exprs then
        (if takes_father (fst (SampleUniformInt ext 0 2 rand)) then
           cross_over_loop ext father_exprs mother_exprs (Suc i)
             (cross_over_exprs @ [IRCopy ext (father_exprs ! i)])
             (snd (SampleUniformInt ext 0 2 rand))
         else
           cross_over_loop ext father_exprs mother_exprs (Suc i)
             (cross_over_exprs @ [IRCopy ext (mother_exprs ! i)])
             (snd (SampleUniformInt ext 0 2 rand)))
      else (cross_over_exprs, rand))"
  by pat_completeness auto
termination
  by (relation "measure (\<lambda>(ext, father_exprs, mother_exprs, i, cross_over_exprs, rand).
        length father_exprs - i)") auto

declare cross_over_loop.simps [simp del]

definition CrossOver ::
  "('e, 't, 's) collaborators \<Rightarrow> ('e, 's) EvolutionarySearch \<Rightarrow> 'e SearchState \<Rightarrow> 'e SearchState
    \<Rightarrow> error + ('e SearchState \<times> ('e, 's) EvolutionarySearch)" where
  "CrossOver ext es state1 state2 =
     (let father_exprs = module_expr (ir_schedule state1);
          mother_exprs = module_expr (ir_schedule state2)
      in if length father_exprs \<noteq> length mother_exprs then Inl CheckFailure
         else
           (let (cross_over_exprs, rand) =
                  cross_over_loop ext father_exprs mother_exprs 0 [] (rand_seed es);
                (forked, rand') = ForkRandomState ext rand;
                res = \<lparr>ir_schedule = \<lparr>module_expr = cross_over_exprs, sch_rand_seed = forked\<rparr>,
                       predicted_cost = None\<rparr>
            in Inr (res, es\<lparr>rand_seed := rand'\<rparr>)))"

text \<open>
  The values drawn by the loop of \<^verbatim>\<open>CrossOver\<close> over \<open>n\<close> positions, from the state
  \<open>rand\<close> on.
\<close>

fun die_draws :: "('e, 't, 's) collaborators \<Rightarrow> nat \<Rightarrow> rand_state \<Rightarrow> int list" where
  "die_draws ext 0 rand = []"
| "die_draws ext (Suc n) rand =
     fst (SampleUniformInt ext 0 2 rand) # die_draws ext n (snd (SampleUniformInt ext 0 2 rand))"

text \<open>
  The random state of the search after the loop of \<^verbatim>\<open>CrossOver\<close> has drawn for \<open>n\<close>
  positions.
\<close>

fun seed_after_draws :: "('e, 't, 's) collaborators \<Rightarrow> nat \<Rightarrow> rand_state \<Rightarrow> rand_state" where
  "seed_after_draws ext 0 rand = rand"
| "seed_after_draws ext (Suc n) rand =
     seed_after_draws ext n (snd (SampleUniformInt ext 0 2 rand))"

subsection \<open>Evolve\<close>

text \<open>
  The loop \<^verbatim>\<open>while (first_rand_idx == second_rand_idx)\<close> of \<^verbatim>\<open>Evolve\<close>, which draws
  the second index again. Nothing bounds the number of its rounds: \<open>None\<close> is the loop
  that never ends.
\<close>

partial_function (option) distinct_second_idx ::
  "('e, 't, 's) collaborators \<Rightarrow> int \<Rightarrow> int \<Rightarrow> int \<Rightarrow> rand_state \<Rightarrow> (int \<times> rand_state) option"
  where
  "distinct_second_idx ext generation_num first_rand_idx second_rand_idx rand =
     (if first_rand_idx = second_rand_idx then
        distinct_second_idx ext generation_num first_rand_idx
          (fst (SampleUniformInt ext 0 generation_num rand))
          (snd (SampleUniformInt ext 0 generation_num rand))
      else Some (second_rand_idx, rand))"

declare distinct_second_idx.simps [code]

text \<open>
  The loop \<^verbatim>\<open>for (int i = 0; i < cross_over_num; ++i)\<close>, on the number of rounds still
  to run, \<^verbatim>\<open>evolution\<close> and the object. \<^verbatim>\<open>population[first_rand_idx]\<close> outside the
  vector is an error of the model.
\<close>

fun evolve_cross_overs ::
  "('e, 't, 's) collaborators \<Rightarrow> 'e SearchState list \<Rightarrow> nat \<Rightarrow> 'e SearchState list
    \<Rightarrow> ('e, 's) EvolutionarySearch
    \<Rightarrow> (error + ('e SearchState list \<times> ('e, 's) EvolutionarySearch)) option" where
  "evolve_cross_overs ext population 0 evolution es = Some (Inr (evolution, es))"
| "evolve_cross_overs ext population (Suc rounds) evolution es =
     (let generation_num = int (length population);
          first_draw = SampleUniformInt ext 0 generation_num (rand_seed es);
          second_draw = SampleUniformInt ext 0 generation_num (snd first_draw);
          first_rand_idx = fst first_draw
      in case distinct_second_idx ext generation_num first_rand_idx (fst second_draw)
                (snd second_draw) of
           None \<Rightarrow> None
         | Some (second_rand_idx, rand) \<Rightarrow>
             if first_rand_idx < 0 \<or> generation_num \<le> first_rand_idx \<or>
                second_rand_idx < 0 \<or> generation_num \<le> second_rand_idx
             then Some (Inl OutOfBounds)
             else
               (case CrossOver ext (es\<lparr>rand_seed := rand\<rparr>) (population ! nat first_rand_idx)
                       (population ! nat second_rand_idx) of
                  Inl e \<Rightarrow> Some (Inl e)
                | Inr (child, es') \<Rightarrow>
                    evolve_cross_overs ext population rounds (evolution @ [child]) es'))"

text \<open>
  Modelled from the spec: \<^verbatim>\<open>cinn/utils/sized_multi_set.h\<close> is not among the sources.
  Section 4.2: the container is extracted in ascending order, ties in insertion order.
  It is the ascending list of its elements, and an insert goes behind the elements that
  are not greater.
\<close>

fun multiset_insert :: "('a \<Rightarrow> 'a \<Rightarrow> bool) \<Rightarrow> 'a \<Rightarrow> 'a list \<Rightarrow> 'a list" where
  "multiset_insert cmp x [] = [x]"
| "multiset_insert cmp x (y # ys) =
     (if cmp x y then x # y # ys else y # multiset_insert cmp x ys)"

text \<open>
  Modelled from the spec: \<^verbatim>\<open>SizedMultiSet::Push\<close>, from the same header. Section 4.2: a
  multiset of bounded size that retains the elements with the smallest keys; when the
  size exceeds the bound after an insert, the element with the largest key is evicted.
\<close>

definition SizedMultiSet_Push :: "nat \<Rightarrow> ('a \<Rightarrow> 'a \<Rightarrow> bool) \<Rightarrow> 'a \<Rightarrow> 'a list \<Rightarrow> 'a list" where
  "SizedMultiSet_Push capacity cmp x xs =
     (let ys = multiset_insert cmp x xs
      in if capacity < length ys then butlast ys else ys)"

text \<open>
  The loop \<^verbatim>\<open>for (size_t i = 0; i < evolution.size(); ++i)\<close>, which mutates and scores
  each state through the search space and pushes it into \<^verbatim>\<open>evolution_with_cost\<close>.
\<close>

fun push_mutated ::
  "('e, 't, 's) collaborators \<Rightarrow> nat \<Rightarrow> 'e SearchState list \<Rightarrow> 's \<Rightarrow> 'e SearchState list
    \<Rightarrow> 'e SearchState list \<times> 's" where
  "push_mutated ext capacity [] space evolution_with_cost = (evolution_with_cost, space)"
| "push_mutated ext capacity (state # evolution) space evolution_with_cost =
     (let mutated = GetScheduleMutate ext space state
      in push_mutated ext capacity evolution (snd mutated)
           (SizedMultiSet_Push capacity (state_less ext) (fst mutated) evolution_with_cost))"

definition Evolve ::
  "('e, 't, 's) collaborators \<Rightarrow> ('e, 's) EvolutionarySearch \<Rightarrow> 'e SearchState list \<Rightarrow> int \<Rightarrow> int
    \<Rightarrow> (error + ('e SearchState list \<times> ('e, 's) EvolutionarySearch)) option" where
  "Evolve ext es population cross_over_num ret_num =
     (let generation_num = int (length population)
      in if generation_num = 0 then Some (Inr ([], es))
         else
           (case evolve_cross_overs ext population (nat cross_over_num) population es of
              None \<Rightarrow> None
            | Some (Inl e) \<Rightarrow> Some (Inl e)
            | Some (Inr (evolution, es')) \<Rightarrow>
                (let scored = push_mutated ext (size_t_of_int ret_num) evolution
                                (search_space es') []
                 in Some (Inr (fst scored, es'\<lparr>search_space := snd scored\<rparr>)))))"

subsection \<open>Warm starts and the entry points\<close>

text \<open>
  The loop \<^verbatim>\<open>for (auto&& record : records)\<close> of \<^verbatim>\<open>GetTopKCandidatesFromDatabase\<close>. The
  schedule is built from a copy of the module expression that the task registry holds
  for the task (\<^verbatim>\<open>optim::IRCopy\<close> of a module expression copies each of its expressions)
  and from a forked random state; the trace is replayed on it. The loop has no handler
  for a replay that fails: the failure ends the call.
\<close>

fun replay_records ::
  "('e, 't, 's) collaborators \<Rightarrow> string \<Rightarrow> 't DatabaseRecord list \<Rightarrow> 'e SearchState list
    \<Rightarrow> rand_state \<Rightarrow> error + ('e SearchState list \<times> rand_state)" where
  "replay_records ext task_key [] results rand = Inr (results, rand)"
| "replay_records ext task_key (rec # records) results rand =
     (let forked = ForkRandomState ext rand;
          ir_sch = \<lparr>module_expr = map (IRCopy ext) (registry_module_expr ext task_key),
                    sch_rand_seed = fst forked\<rparr>
      in case ReplayWithProto ext (trace rec) ir_sch of
           Inl e \<Rightarrow> Inl e
         | Inr replayed \<Rightarrow>
             replay_records ext task_key records
               (results @ [\<lparr>ir_schedule = replayed,
                             predicted_cost = Some (record_predicted_cost rec)\<rparr>])
               (snd forked))"

definition GetTopKCandidatesFromDatabase ::
  "('e, 't, 's) collaborators \<Rightarrow> string \<Rightarrow> ('e, 's) EvolutionarySearch \<Rightarrow> int
    \<Rightarrow> error + ('e SearchState list \<times> ('e, 's) EvolutionarySearch)" where
  "GetTopKCandidatesFromDatabase ext task_key es topk =
     (case replay_records ext task_key (GetTopK ext task_key topk) [] (rand_seed es) of
        Inl e \<Rightarrow> Inl e
      | Inr (results, rand) \<Rightarrow> Inr (results, es\<lparr>rand_seed := rand\<rparr>))"

text \<open>
  The random state of the search after the loop of \<^verbatim>\<open>GetTopKCandidatesFromDatabase\<close> has
  forked for \<open>n\<close> records, and the schedule that the loop builds for record \<open>i\<close> before it
  replays the trace: a copy of the module expression of the task, with the state forked
  at that round.
\<close>

fun seed_after_forks :: "('e, 't, 's) collaborators \<Rightarrow> nat \<Rightarrow> rand_state \<Rightarrow> rand_state" where
  "seed_after_forks ext 0 rand = rand"
| "seed_after_forks ext (Suc n) rand = seed_after_forks ext n (snd (ForkRandomState ext rand))"

definition warm_start_schedule ::
  "('e, 't, 's) collaborators \<Rightarrow> string \<Rightarrow> rand_state \<Rightarrow> nat \<Rightarrow> 'e IRSchedule" where
  "warm_start_schedule ext task_key rand i =
     \<lparr>module_expr = map (IRCopy ext) (registry_module_expr ext task_key),
      sch_rand_seed = fst (ForkRandomState ext (seed_after_forks ext i rand))\<rparr>"

definition InitSketch ::
  "('e, 't, 's) collaborators \<Rightarrow> ('e, 's) EvolutionarySearch \<Rightarrow> int \<Rightarrow> string
    \<Rightarrow> 'e SearchState list \<times> ('e, 's) EvolutionarySearch" where
  "InitSketch ext es num strategy =
     (let sketches = GenerateSketches ext (search_space es) num strategy
      in (fst sketches, es\<lparr>search_space := snd sketches\<rparr>))"

definition SearchModuleExprBests ::
  "('e, 't, 's) collaborators \<Rightarrow> string \<Rightarrow> ('e, 's) EvolutionarySearch \<Rightarrow> TuningOptions
    \<Rightarrow> (error + ('e SearchState list \<times> ('e, 's) EvolutionarySearch)) option" where
  "SearchModuleExprBests ext task_key es options =
     (case GetTopKCandidatesFromDatabase ext task_key es (evolution_pick_database_topk options) of
        Inl e \<Rightarrow> Some (Inl e)
      | Inr (topk_from_database, es') \<Rightarrow>
          (let init_num = evolution_init_population_num options - int (length topk_from_database);
               init_sketch = InitSketch ext es' init_num ''rule_prune'';
               init_population = topk_from_database @ fst init_sketch
           in Evolve ext (snd init_sketch) init_population (evolution_cross_over_num options)
                (num_samples_per_iteration options)))"

text \<open>
  The vector \<^verbatim>\<open>init_population\<close> that \<^verbatim>\<open>SearchModuleExprBests\<close> hands to \<^verbatim>\<open>Evolve\<close>, with
  the object as it is then.
\<close>

definition init_population_of ::
  "('e, 't, 's) collaborators \<Rightarrow> string \<Rightarrow> ('e, 's) EvolutionarySearch \<Rightarrow> TuningOptions
    \<Rightarrow> error + ('e SearchState list \<times> ('e, 's) EvolutionarySearch)" where
  "init_population_of ext task_key es options =
     (case GetTopKCandidatesFromDatabase ext task_key es (evolution_pick_database_topk options) of
        Inl e \<Rightarrow> Inl e
      | Inr (topk_from_database, es') \<Rightarrow>
          (let init_num = evolution_init_population_num options - int (length topk_from_database);
               init_sketch = InitSketch ext es' init_num ''rule_prune''
           in Inr (topk_from_database @ fst init_sketch, snd init_sketch)))"

text \<open>
  \<^verbatim>\<open>SearchModuleExprBests(options)[0]\<close>: element 0 of an empty vector does not exist.
\<close>

definition SearchModuleExpr ::
  "('e, 't, 's) collaborators \<Rightarrow> string \<Rightarrow> ('e, 's) EvolutionarySearch \<Rightarrow> TuningOptions
    \<Rightarrow> (error + ('e SearchState \<times> ('e, 's) EvolutionarySearch)) option" where
  "SearchModuleExpr ext task_key es options =
     (case SearchModuleExprBests ext task_key es options of
        None \<Rightarrow> None
      | Some (Inl e) \<Rightarrow> Some (Inl e)
      | Some (Inr (picked_bests, es')) \<Rightarrow>
          (if 0 < length picked_bests then Some (Inr (picked_bests ! 0, es'))
           else Some (Inl OutOfBounds)))"


text \<open>
  \<^verbatim>\<open>SearchModuleExprEpsGreedy\<close>: the bests of \<^verbatim>\<open>SearchModuleExprBests\<close> and freshly
  generated sketches go through the pick, which reads and updates the visited set.
\<close>

definition SearchModuleExprEpsGreedy ::
  "('e, 't, 's) collaborators \<Rightarrow> string \<Rightarrow> ('e, 's) EvolutionarySearch \<Rightarrow> TuningOptions
    \<Rightarrow> (error + ('e SearchState list \<times> ('e, 's) EvolutionarySearch)) option" where
  "SearchModuleExprEpsGreedy ext task_key es options =
     (case SearchModuleExprBests ext task_key es options of
        None \<Rightarrow> None
      | Some (Inl e) \<Rightarrow> Some (Inl e)
      | Some (Inr (picked_bests, es')) \<Rightarrow>
          (let random_num = evolution_init_population_num options -
                              evolution_pick_database_topk options;
               random_init = InitSketch ext es' random_num ''random_prune'';
               results = PickNextGenerationEpsGreedy fingerprint
                           (visited_candidates (snd random_init)) picked_bests (fst random_init)
                           (num_samples_per_iteration options) (evolution_eps_greedy options)
           in Some (Inr (fst results, (snd random_init)\<lparr>visited_candidates := snd results\<rparr>))))"

text \<open>
  Successive calls of \<^verbatim>\<open>SearchModuleExprEpsGreedy\<close> on one object, each with its options;
  the lists returned are collected in order.
\<close>

fun search_rounds ::
  "('e, 't, 's) collaborators \<Rightarrow> string \<Rightarrow> ('e, 's) EvolutionarySearch \<Rightarrow> TuningOptions list
    \<Rightarrow> (error + ('e SearchState list list \<times> ('e, 's) EvolutionarySearch)) option" where
  "search_rounds ext task_key es [] = Some (Inr ([], es))"
| "search_rounds ext task_key es (options # rounds) =
     (case SearchModuleExprEpsGreedy ext task_key es options of
        None \<Rightarrow> None
      | Some (Inl e) \<Rightarrow> Some (Inl e)
      | Some (Inr (results, es')) \<Rightarrow>
          (case search_rounds ext task_key es' rounds of
             None \<Rightarrow> None
           | Some (Inl e) \<Rightarrow> Some (Inl e)
           | Some (Inr (later, es'')) \<Rightarrow> Some (Inr (results # later, es''))))"

subsection \<open>CrossOver on the objects it touches\<close>

text \<open>
  A \<^verbatim>\<open>SearchState\<close> is a handle to a shared object and an \<^verbatim>\<open>ir::Expr\<close> a handle to an
  IR node, so what \<^verbatim>\<open>CrossOver\<close> leaves unchanged is a statement about a store. The
  store holds the random state of the search, the IR nodes and the search state
  objects; an address is an index into the store, and an allocation extends it.
\<close>

type_synonym addr = nat

record SearchStateObj =
  exprs :: "addr list"
  obj_rand_seed :: rand_state
  obj_predicted_cost :: "real option"

record 'n store =
  engine_rand_seed :: rand_state
  ir_nodes :: "'n list"
  state_objs :: "SearchStateObj list"

text \<open>
  Modelled from the spec: \<^verbatim>\<open>cinn/optim/ir_copy.h\<close> is not among the sources. Section 6
  has \<^verbatim>\<open>deep_copy(ir) \<rightarrow> ir\<close>: on the store, a copy is a function from the IR nodes and
  the handle to copy to the handle of the copy and the IR nodes after it. A deep copy
  returns a node that did not exist before and leaves every node that existed as it
  was.
\<close>

definition deep_copy_allocates :: "('n list \<Rightarrow> addr \<Rightarrow> addr \<times> 'n list) \<Rightarrow> bool" where
  "deep_copy_allocates copy =
     (\<forall>nodes a. length nodes \<le> fst (copy nodes a) \<and>
                 fst (copy nodes a) < length (snd (copy nodes a)) \<and>
                 take (length nodes) (snd (copy nodes a)) = nodes)"

function cross_over_loop_store ::
  "('e, 't, 's) collaborators \<Rightarrow> ('n list \<Rightarrow> addr \<Rightarrow> addr \<times> 'n list) \<Rightarrow> addr list \<Rightarrow> addr list
    \<Rightarrow> nat \<Rightarrow> addr list \<Rightarrow> 'n store \<Rightarrow> addr list \<times> 'n store" where
  "cross_over_loop_store ext copy father_exprs mother_exprs i cross_over_exprs st =
     (if i < length father_exprs then
        (let die = SampleUniformInt ext 0 2 (engine_rand_seed st);
             copied = copy (ir_nodes st)
                        (if takes_father (fst die) then father_exprs ! i else mother_exprs ! i)
         in cross_over_loop_store ext copy father_exprs mother_exprs (Suc i)
              (cross_over_exprs @ [fst copied])
              (st\<lparr>engine_rand_seed := snd die, ir_nodes := snd copied\<rparr>))
      else (cross_over_exprs, st))"
  by pat_completeness auto
termination
  by (relation "measure (\<lambda>(ext, copy, father_exprs, mother_exprs, i, cross_over_exprs, st).
        length father_exprs - i)") auto

declare cross_over_loop_store.simps [simp del]

definition CrossOver_store ::
  "('e, 't, 's) collaborators \<Rightarrow> ('n list \<Rightarrow> addr \<Rightarrow> addr \<times> 'n list) \<Rightarrow> 'n store \<Rightarrow> addr \<Rightarrow> addr
    \<Rightarrow> error + (SearchStateObj \<times> 'n store)" where
  "CrossOver_store ext copy st state1 state2 =
     (if length (state_objs st) \<le> state1 \<or> length (state_objs st) \<le> state2 then Inl NullHandle
      else
        (let father_exprs = exprs (state_objs st ! state1);
             mother_exprs = exprs (state_objs st ! state2)
         in if length father_exprs \<noteq> length mother_exprs then Inl CheckFailure
            else
              (let looped = cross_over_loop_store ext copy father_exprs mother_exprs 0 [] st;
                   forked = ForkRandomState ext (engine_rand_seed (snd looped));
                   res = \<lparr>exprs = fst looped, obj_rand_seed = fst forked,
                          obj_predicted_cost = None\<rparr>
               in Inr (res, (snd looped)\<lparr>engine_rand_seed := snd forked\<rparr>))))"

text \<open>
  The state that an object of the store stands for, when \<open>val nodes a\<close> is the expression
  that the node at \<open>a\<close> holds, and what makes a copy on the store a copy of expressions:
  it allocates, the node it returns holds the copy of the expression copied, and the
  expression of a node does not depend on nodes allocated later.
\<close>

definition state_of_obj :: "('n list \<Rightarrow> addr \<Rightarrow> 'e) \<Rightarrow> 'n list \<Rightarrow> SearchStateObj \<Rightarrow> 'e SearchState" where
  "state_of_obj val nodes obj =
     \<lparr>ir_schedule = \<lparr>module_expr = map (val nodes) (exprs obj), sch_rand_seed = obj_rand_seed obj\<rparr>,
      predicted_cost = obj_predicted_cost obj\<rparr>"

definition copy_refines ::
  "('e, 't, 's) collaborators \<Rightarrow> ('n list \<Rightarrow> addr \<Rightarrow> 'e) \<Rightarrow> ('n list \<Rightarrow> addr \<Rightarrow> addr \<times> 'n list) \<Rightarrow> bool" where
  "copy_refines ext val copy =
     (deep_copy_allocates copy \<and>
      (\<forall>nodes a. a < length nodes \<longrightarrow>
         val (snd (copy nodes a)) (fst (copy nodes a)) = IRCopy ext (val nodes a)) \<and>
      (\<forall>nodes nodes' a. a < length nodes \<and> take (length nodes) nodes' = nodes \<longrightarrow>
         val nodes' a = val nodes a))"

subsection \<open>An instance of the parameters\<close>

text \<open>
  One choice of the parameters, on which the definitions can be evaluated: a linear
  congruential engine whose draws are reduced into the range asked for, expressions
  that are numbers, a copy that returns its argument, a replay that fails on the trace
  \<open>0\<close> and otherwise appends the trace to the module, a database that holds the given
  records, a search space that generates the sketches \<open>0, 1, ...\<close> and mutates nothing.
\<close>

definition lcg_next :: "rand_state \<Rightarrow> rand_state" where
  "lcg_next s = (s * 48271) mod 2147483647"

definition example_collaborators :: "nat DatabaseRecord list \<Rightarrow> (nat, nat, unit) collaborators"
  where
  "example_collaborators records =
     \<lparr>SampleUniformInt = (\<lambda>lo hi s. (lo + lcg_next s mod (hi - lo), lcg_next s)),
      ForkRandomState = (\<lambda>s. (lcg_next s, lcg_next s)),
      IRCopy = (\<lambda>e. e),
      ReplayWithProto = (\<lambda>t sch. if t = 0 then Inl ReplayFailure
                                  else Inr (sch\<lparr>module_expr := module_expr sch @ [t]\<rparr>)),
      GetTopK = (\<lambda>key topk. take (nat topk) records),
      registry_module_expr = (\<lambda>key. [7]),
      GenerateSketches = (\<lambda>space num strategy.
        (map (\<lambda>i. \<lparr>ir_schedule = \<lparr>module_expr = [i], sch_rand_seed = 1\<rparr>,
                    predicted_cost = None\<rparr>) [0..<nat num], space)),
      GetScheduleMutate = (\<lambda>space state. (state, space)),
      state_less = (\<lambda>a b. False)\<rparr>"

text \<open>A copy on the store that allocates one node holding what the copied node holds.\<close>

definition example_copy :: "nat list \<Rightarrow> addr \<Rightarrow> addr \<times> nat list" where
  "example_copy nodes a = (length nodes, nodes @ [if a < length nodes then nodes ! a else 0])"

section \<open>Properties\<close>

subsection \<open>The instance of the parameters\<close>

lemma example_fields [simp]:
  "SampleUniformInt (example_collaborators records) lo hi s =
     (lo + lcg_next s mod (hi - lo), lcg_next s)"
  "ForkRandomState (example_collaborators records) s = (lcg_next s, lcg_next s)"
  "IRCopy (example_collaborators records) e = e"
  "ReplayWithProto (example_collaborators records) t sch =
     (if t = 0 then Inl ReplayFailure else Inr (sch\<lparr>module_expr := module_expr sch @ [t]\<rparr>))"
  "GetTopK (example_collaborators records) key topk = take (nat topk) records"
  "registry_module_expr (example_collaborators records) key = [7]"
  "GenerateSketches (example_collaborators records) space num strategy =
     (map (\<lambda>i. \<lparr>ir_schedule = \<lparr>module_expr = [i], sch_rand_seed = 1\<rparr>,
                 predicted_cost = None\<rparr>) [0..<nat num], space)"
  "GetScheduleMutate (example_collaborators records) space state = (state, space)"
  "state_less (example_collaborators records) a b = False"
  by (simp_all add: example_collaborators_def)

lemma example_sampler_in_range: "sampler_in_range (example_collaborators records)"
proof -
  have "lo \<le> lo + x mod (hi - lo) \<and> lo + x mod (hi - lo) \<le> hi - 1" if "lo < hi" for lo hi x :: int
  proof -
    have "0 \<le> x mod (hi - lo)" "x mod (hi - lo) < hi - lo"
      using that by simp_all
    then show ?thesis by linarith
  qed
  then show ?thesis
    by (simp add: sampler_in_range_def example_collaborators_def uniform_int_outcomes_def)
qed

lemma example_copy_allocates: "deep_copy_allocates example_copy"
  by (simp add: deep_copy_allocates_def example_copy_def)

lemma example_draws:
  "die_draws (example_collaborators []) (Suc (Suc 0)) 1 = [1, 0]"
  by (simp add: lcg_next_def)

subsection \<open>CrossOver\<close>

lemma cross_over_loop_eq:
  "cross_over_loop ext f m i acc rand =
     (acc @ map (\<lambda>j. IRCopy ext (if takes_father (die_draws ext (length f - i) rand ! (j - i))
                                  then f ! j else m ! j)) [i..<length f],
      seed_after_draws ext (length f - i) rand)"
proof (induction "length f - i" arbitrary: i acc rand)
  case 0
  then show ?case by (subst cross_over_loop.simps) simp
next
  case (Suc n)
  then have i: "i < length f" and n: "length f - Suc i = n" by simp_all
  let ?d = "fst (SampleUniformInt ext 0 2 rand)"
  let ?r = "snd (SampleUniformInt ext 0 2 rand)"
  have unf: "cross_over_loop ext f m i acc rand =
      cross_over_loop ext f m (Suc i)
        (acc @ [IRCopy ext (if takes_father ?d then f ! i else m ! i)]) ?r"
    by (subst cross_over_loop.simps) (simp add: i)
  have IH: "cross_over_loop ext f m (Suc i)
        (acc @ [IRCopy ext (if takes_father ?d then f ! i else m ! i)]) ?r =
     ((acc @ [IRCopy ext (if takes_father ?d then f ! i else m ! i)]) @
        map (\<lambda>j. IRCopy ext (if takes_father (die_draws ext (length f - Suc i) ?r ! (j - Suc i))
                                  then f ! j else m ! j)) [Suc i..<length f],
      seed_after_draws ext (length f - Suc i) ?r)"
    by (rule Suc.hyps(1)) (simp add: n)
  have up: "[i..<length f] = i # [Suc i..<length f]"
    using i by (simp add: upt_conv_Cons)
  have tl: "map (\<lambda>j. IRCopy ext (if takes_father (die_draws ext (Suc n) rand ! (j - i))
                                  then f ! j else m ! j)) [Suc i..<length f] =
            map (\<lambda>j. IRCopy ext (if takes_father (die_draws ext n ?r ! (j - Suc i))
                                  then f ! j else m ! j)) [Suc i..<length f]"
  proof (rule map_cong [OF refl])
    fix j assume "j \<in> set [Suc i..<length f]"
    then have "j - i = Suc (j - Suc i)" by auto
    then show "IRCopy ext (if takes_father (die_draws ext (Suc n) rand ! (j - i)) then f ! j else m ! j) =
               IRCopy ext (if takes_father (die_draws ext n ?r ! (j - Suc i)) then f ! j else m ! j)"
      by simp
  qed
  have len: "length f - i = Suc n" using Suc.hyps(2) by simp
  show ?case
    unfolding unf IH len up n
    by (simp add: tl)
qed

lemma die_draws_in_range:
  assumes "sampler_in_range ext"
  shows "i < n \<Longrightarrow> die_draws ext n rand ! i \<in> set (uniform_int_outcomes 0 2)"
proof (induction n arbitrary: i rand)
  case 0
  then show ?case by simp
next
  case (Suc n)
  show ?case
  proof (cases i)
    case 0
    then show ?thesis using assms by (simp add: sampler_in_range_def)
  next
    case (Suc k)
    then show ?thesis using Suc.IH [of k] Suc.prems by simp
  qed
qed

lemma outcomes_0_2: "uniform_int_outcomes 0 2 = [0, 1]"
  by (simp add: uniform_int_outcomes_def upto.simps)

lemma CrossOver_eq:
  assumes "length (module_expr (ir_schedule state1)) = length (module_expr (ir_schedule state2))"
  shows "CrossOver ext es state1 state2 =
    Inr (\<lparr>ir_schedule =
            \<lparr>module_expr = map (\<lambda>j. IRCopy ext
                 (if takes_father (die_draws ext (length (module_expr (ir_schedule state1))) (rand_seed es) ! j)
                  then module_expr (ir_schedule state1) ! j else module_expr (ir_schedule state2) ! j))
                 [0..<length (module_expr (ir_schedule state1))],
             sch_rand_seed = fst (ForkRandomState ext
                 (seed_after_draws ext (length (module_expr (ir_schedule state1))) (rand_seed es)))\<rparr>,
          predicted_cost = None\<rparr>,
         es\<lparr>rand_seed := snd (ForkRandomState ext
                 (seed_after_draws ext (length (module_expr (ir_schedule state1))) (rand_seed es)))\<rparr>)"
  using assms
  by (simp add: CrossOver_def Let_def cross_over_loop_eq split: prod.splits)

text \<open>
  Claim C1, as the code has it. \<^verbatim>\<open>SampleUniformInt(0, 2, &rand_seed_)\<close> has an exclusive
  upper bound (\<^verbatim>\<open>Evolve\<close> indexes a population of \<^verbatim>\<open>generation_num\<close> states with
  \<^verbatim>\<open>SampleUniformInt(0, generation_num, &rand_seed_)\<close>), so the die has the two outcomes
  0 and 1. For parents with equal expression counts \<^verbatim>\<open>CrossOver\<close> returns a child, and at
  each position \<open>i\<close> the child holds the copy of the father's \<open>i\<close>-th expression when the
  \<open>i\<close>-th value drawn is 0 and the copy of the mother's when it is 1. Under a uniform
  die each parent is taken with probability 1/2.
\<close>

theorem CrossOver_takes_by_die:
  assumes "sampler_in_range ext"
    and "length (module_expr (ir_schedule state1)) = length (module_expr (ir_schedule state2))"
    and "i < length (module_expr (ir_schedule state1))"
  shows "(\<exists>child es'. CrossOver ext es state1 state2 = Inr (child, es') \<and>
           (let die = die_draws ext (length (module_expr (ir_schedule state1))) (rand_seed es) ! i
            in (die = 0 \<or> die = 1) \<and>
               module_expr (ir_schedule child) ! i =
                 (if die = 0 then IRCopy ext (module_expr (ir_schedule state1) ! i)
                  else IRCopy ext (module_expr (ir_schedule state2) ! i)))) \<and>
         set (uniform_int_outcomes 0 2) = {0, 1} \<and>
         probability takes_father (uniform_int_outcomes 0 2) = 1 / 2 \<and>
         probability (\<lambda>die. \<not> takes_father die) (uniform_int_outcomes 0 2) = 1 / 2"
proof -
  have d: "die_draws ext (length (module_expr (ir_schedule state1))) (rand_seed es) ! i \<in> {0, 1}"
    using die_draws_in_range [OF assms(1) assms(3)] by (simp add: outcomes_0_2)
  have p: "probability takes_father (uniform_int_outcomes 0 2) = 1 / 2"
    "probability (\<lambda>die. \<not> takes_father die) (uniform_int_outcomes 0 2) = 1 / 2"
    by (simp_all add: probability_def outcomes_0_2 takes_father_def)
  show ?thesis
    unfolding CrossOver_eq [OF assms(2)]
    using d assms(3) p by (auto simp: Let_def outcomes_0_2 takes_father_def)
qed

theorem CrossOver_takes_by_die_witness:
  "sampler_in_range (example_collaborators []) \<and>
   length [10, 11 :: nat] = length [20, 21 :: nat] \<and> (0::nat) < length [10, 11 :: nat] \<and>
   (\<exists>child es'. CrossOver (example_collaborators [])
        \<lparr>rand_seed = 1, search_space = (), visited_candidates = {}\<rparr>
        \<lparr>ir_schedule = \<lparr>module_expr = [10, 11], sch_rand_seed = 5\<rparr>, predicted_cost = None\<rparr>
        \<lparr>ir_schedule = \<lparr>module_expr = [20, 21], sch_rand_seed = 6\<rparr>, predicted_cost = None\<rparr>
      = Inr (child, es') \<and> module_expr (ir_schedule child) ! 0 = 20)"
  using CrossOver_takes_by_die [where ext = "example_collaborators []" and i = 0
      and es = "\<lparr>rand_seed = 1, search_space = (), visited_candidates = {}\<rparr>"
      and ?state1.0 = "\<lparr>ir_schedule = \<lparr>module_expr = [10, 11], sch_rand_seed = 5\<rparr>, predicted_cost = None\<rparr>"
      and ?state2.0 = "\<lparr>ir_schedule = \<lparr>module_expr = [20, 21], sch_rand_seed = 6\<rparr>, predicted_cost = None\<rparr>",
      OF example_sampler_in_range]
    example_sampler_in_range [of "[]"]
  by (simp add: example_draws Let_def lcg_next_def)

text \<open>
  The die of claim C1 as stated, three outcomes of which one takes the father, is not the
  die of the code: the value 2 is not among the outcomes, and the share of the outcomes
  that take the father is not 1/3.
\<close>

theorem CrossOver_die_counterexample:
  "2 \<notin> set (uniform_int_outcomes 0 2) \<and>
   probability takes_father (uniform_int_outcomes 0 2) \<noteq> 1 / 3"
  by (simp add: probability_def outcomes_0_2 takes_father_def)

text \<open>
  Claim C6: \<^verbatim>\<open>CrossOver\<close> of two parents whose module expressions differ in their
  number of expressions fails at the \<^verbatim>\<open>CHECK_EQ\<close> and produces no child; for parents with
  equal numbers the check passes and a child with as many expressions is returned.
\<close>

theorem CrossOver_checks_sizes:
  "(length (module_expr (ir_schedule state1)) \<noteq> length (module_expr (ir_schedule state2)) \<longrightarrow>
      CrossOver ext es state1 state2 = Inl CheckFailure) \<and>
   (length (module_expr (ir_schedule state1)) = length (module_expr (ir_schedule state2)) \<longrightarrow>
      (\<exists>child es'. CrossOver ext es state1 state2 = Inr (child, es') \<and>
         length (module_expr (ir_schedule child)) = length (module_expr (ir_schedule state1))))"
proof (intro conjI impI)
  assume "length (module_expr (ir_schedule state1)) \<noteq> length (module_expr (ir_schedule state2))"
  then show "CrossOver ext es state1 state2 = Inl CheckFailure"
    by (simp add: CrossOver_def)
next
  assume e: "length (module_expr (ir_schedule state1)) = length (module_expr (ir_schedule state2))"
  show "\<exists>child es'. CrossOver ext es state1 state2 = Inr (child, es') \<and>
         length (module_expr (ir_schedule child)) = length (module_expr (ir_schedule state1))"
    unfolding CrossOver_eq [OF e] by simp
qed

theorem CrossOver_checks_sizes_witness:
  "CrossOver (example_collaborators [])
        \<lparr>rand_seed = 1, search_space = (), visited_candidates = {}\<rparr>
        \<lparr>ir_schedule = \<lparr>module_expr = [10, 11], sch_rand_seed = 5\<rparr>, predicted_cost = None\<rparr>
        \<lparr>ir_schedule = \<lparr>module_expr = [20], sch_rand_seed = 6\<rparr>, predicted_cost = None\<rparr>
      = Inl CheckFailure \<and>
   (\<exists>child es'. CrossOver (example_collaborators [])
        \<lparr>rand_seed = 1, search_space = (), visited_candidates = {}\<rparr>
        \<lparr>ir_schedule = \<lparr>module_expr = [10, 11], sch_rand_seed = 5\<rparr>, predicted_cost = None\<rparr>
        \<lparr>ir_schedule = \<lparr>module_expr = [20, 21], sch_rand_seed = 6\<rparr>, predicted_cost = None\<rparr>
      = Inr (child, es') \<and>
      length (module_expr (ir_schedule child)) = length [10, 11 :: nat])"
  using CrossOver_checks_sizes [where ext = "example_collaborators []"
      and es = "\<lparr>rand_seed = 1, search_space = (), visited_candidates = {}\<rparr>"
      and ?state1.0 = "\<lparr>ir_schedule = \<lparr>module_expr = [10, 11], sch_rand_seed = 5\<rparr>, predicted_cost = None\<rparr>"
      and ?state2.0 = "\<lparr>ir_schedule = \<lparr>module_expr = [20], sch_rand_seed = 6\<rparr>, predicted_cost = None\<rparr>"]
    CrossOver_checks_sizes [where ext = "example_collaborators []"
      and es = "\<lparr>rand_seed = 1, search_space = (), visited_candidates = {}\<rparr>"
      and ?state1.0 = "\<lparr>ir_schedule = \<lparr>module_expr = [10, 11], sch_rand_seed = 5\<rparr>, predicted_cost = None\<rparr>"
      and ?state2.0 = "\<lparr>ir_schedule = \<lparr>module_expr = [20, 21], sch_rand_seed = 6\<rparr>, predicted_cost = None\<rparr>"]
  by simp

subsection \<open>CrossOver leaves its parents unchanged\<close>

lemma cross_over_loop_store_frame:
  assumes c: "deep_copy_allocates copy"
  shows "state_objs (snd (cross_over_loop_store ext copy f m i acc st)) = state_objs st \<and>
         take (length (ir_nodes st)) (ir_nodes (snd (cross_over_loop_store ext copy f m i acc st)))
           = ir_nodes st \<and>
         length (ir_nodes st) \<le> length (ir_nodes (snd (cross_over_loop_store ext copy f m i acc st))) \<and>
         set (fst (cross_over_loop_store ext copy f m i acc st))
           \<subseteq> set acc \<union> {a. length (ir_nodes st) \<le> a} \<and>
         engine_rand_seed (snd (cross_over_loop_store ext copy f m i acc st))
           = seed_after_draws ext (length f - i) (engine_rand_seed st)"
proof (induction "length f - i" arbitrary: i acc st)
  case 0
  then show ?case by (subst (1 2 3 4 5) cross_over_loop_store.simps) simp
next
  case (Suc n)
  then have i: "i < length f" and n: "n = length f - Suc i" by simp_all
  let ?die = "SampleUniformInt ext 0 2 (engine_rand_seed st)"
  let ?src = "if takes_father (fst ?die) then f ! i else m ! i"
  let ?cp = "copy (ir_nodes st) ?src"
  let ?st1 = "st\<lparr>engine_rand_seed := snd ?die, ir_nodes := snd ?cp\<rparr>"
  let ?res = "cross_over_loop_store ext copy f m (Suc i) (acc @ [fst ?cp]) ?st1"
  have unf: "cross_over_loop_store ext copy f m i acc st = ?res"
    by (subst cross_over_loop_store.simps) (simp add: i Let_def)
  from c have cp: "length (ir_nodes st) \<le> fst ?cp" "fst ?cp < length (snd ?cp)"
    "take (length (ir_nodes st)) (snd ?cp) = ir_nodes st"
    by (simp_all add: deep_copy_allocates_def)
  note IH = Suc.hyps(1) [OF n, of "acc @ [fst ?cp]" ?st1]
  have len: "length f - i = Suc n" using Suc.hyps(2) by simp
  have 1: "state_objs (snd ?res) = state_objs st" using IH by simp
  have t1: "take (length (snd ?cp)) (ir_nodes (snd ?res)) = snd ?cp" using IH by simp
  have l1: "length (snd ?cp) \<le> length (ir_nodes (snd ?res))" using IH by simp
  have lc: "length (ir_nodes st) \<le> length (snd ?cp)" using cp(1,2) by simp
  have "take (length (ir_nodes st)) (ir_nodes (snd ?res)) =
        take (length (ir_nodes st)) (take (length (snd ?cp)) (ir_nodes (snd ?res)))"
    using lc by (simp add: min_def)
  then have 2: "take (length (ir_nodes st)) (ir_nodes (snd ?res)) = ir_nodes st"
    using t1 cp(3) by simp
  have 3: "length (ir_nodes st) \<le> length (ir_nodes (snd ?res))" using l1 lc by simp
  have "set (fst ?res) \<subseteq> set (acc @ [fst ?cp]) \<union> {a. length (snd ?cp) \<le> a}"
    using IH by simp
  then have 4: "set (fst ?res) \<subseteq> set acc \<union> {a. length (ir_nodes st) \<le> a}"
    using cp(1) lc by auto
  have 5: "engine_rand_seed (snd ?res) = seed_after_draws ext (length f - i) (engine_rand_seed st)"
    using IH by (simp add: len n)
  show ?case unfolding unf using 1 2 3 4 5 by blast
qed

text \<open>
  Claim C8: \<^verbatim>\<open>CrossOver\<close> leaves both parents unchanged. After the call the objects of
  both parents are what they were, their random states included, and so is every IR
  node that existed before, those of the parents' expressions included: the expressions
  of the child are nodes allocated by the copies. The random state of the child is
  forked from the random state of the search, after the draws of the loop.
\<close>

theorem CrossOver_store_leaves_parents:
  assumes "deep_copy_allocates copy"
    and "CrossOver_store ext copy st state1 state2 = Inr (child, st')"
  shows "state_objs st' ! state1 = state_objs st ! state1 \<and>
         state_objs st' ! state2 = state_objs st ! state2 \<and>
         take (length (ir_nodes st)) (ir_nodes st') = ir_nodes st \<and>
         (\<forall>a \<in> set (exprs child). length (ir_nodes st) \<le> a) \<and>
         obj_rand_seed child =
           fst (ForkRandomState ext
                  (seed_after_draws ext (length (exprs (state_objs st ! state1)))
                     (engine_rand_seed st)))"
proof -
  let ?f = "exprs (state_objs st ! state1)"
  let ?m = "exprs (state_objs st ! state2)"
  let ?looped = "cross_over_loop_store ext copy ?f ?m 0 [] st"
  from assms(2) have
    child: "child = \<lparr>exprs = fst ?looped,
               obj_rand_seed = fst (ForkRandomState ext (engine_rand_seed (snd ?looped))),
               obj_predicted_cost = None\<rparr>"
    and st': "st' = (snd ?looped)\<lparr>engine_rand_seed :=
                 snd (ForkRandomState ext (engine_rand_seed (snd ?looped)))\<rparr>"
    by (auto simp: CrossOver_store_def Let_def split: if_splits)
  note fr = cross_over_loop_store_frame [OF assms(1), of ext ?f ?m 0 "[]" st]
  have "set (fst ?looped) \<subseteq> {a. length (ir_nodes st) \<le> a}" using fr by simp
  then have fresh: "\<forall>a \<in> set (exprs child). length (ir_nodes st) \<le> a"
    unfolding child by auto
  show ?thesis
    using fr fresh by (simp add: child st')
qed

theorem CrossOver_store_leaves_parents_witness:
  "deep_copy_allocates example_copy \<and>
   (\<exists>child st'.
      CrossOver_store (example_collaborators []) example_copy
        \<lparr>engine_rand_seed = 1, ir_nodes = [5, 6, 7, 8],
         state_objs = [\<lparr>exprs = [0, 1], obj_rand_seed = 11, obj_predicted_cost = None\<rparr>,
                       \<lparr>exprs = [2, 3], obj_rand_seed = 12, obj_predicted_cost = None\<rparr>]\<rparr>
        0 1 = Inr (child, st') \<and>
      state_objs st' ! 0 = \<lparr>exprs = [0, 1], obj_rand_seed = 11, obj_predicted_cost = None\<rparr> \<and>
      state_objs st' ! 1 = \<lparr>exprs = [2, 3], obj_rand_seed = 12, obj_predicted_cost = None\<rparr> \<and>
      take (length [5, 6, 7, 8 :: nat]) (ir_nodes st') = [5, 6, 7, 8] \<and>
      exprs child = [4, 5])"
proof -
  let ?st = "\<lparr>engine_rand_seed = 1, ir_nodes = [5, 6, 7, 8 :: nat],
         state_objs = [\<lparr>exprs = [0, 1], obj_rand_seed = 11, obj_predicted_cost = None\<rparr>,
                       \<lparr>exprs = [2, 3], obj_rand_seed = 12, obj_predicted_cost = None\<rparr>]\<rparr>"
  obtain child st' where
    r: "CrossOver_store (example_collaborators []) example_copy ?st 0 1 = Inr (child, st')"
    by (simp add: CrossOver_store_def Let_def)
  have e: "exprs child = [4, 5]"
    using r
    by (auto simp: CrossOver_store_def Let_def cross_over_loop_store.simps example_copy_def
        lcg_next_def takes_father_def)
  from CrossOver_store_leaves_parents [OF example_copy_allocates r] r e example_copy_allocates
  show ?thesis by simp
qed

text \<open>
  The two readings of \<^verbatim>\<open>CrossOver\<close> agree: on a store whose copy is a copy of
  expressions, the call on the objects fails where the call on the states they stand for
  fails, and otherwise returns the object that stands for the child, with the same
  random state of the search.
\<close>

lemma cross_over_loop_store_refines:
  assumes r: "copy_refines ext val copy"
    and v: "\<forall>a \<in> set f \<union> set m. a < length nodes0"
    and lm: "length f = length m"
  shows "take (length nodes0) (ir_nodes st) = nodes0 \<Longrightarrow> length nodes0 \<le> length (ir_nodes st) \<Longrightarrow>
         \<forall>a \<in> set acc. a < length (ir_nodes st) \<Longrightarrow>
         (let looped = cross_over_loop_store ext copy f m i acc st;
              abstract = cross_over_loop ext (map (val nodes0) f) (map (val nodes0) m) i
                           (map (val (ir_nodes st)) acc) (engine_rand_seed st)
          in map (val (ir_nodes (snd looped))) (fst looped) = fst abstract \<and>
             engine_rand_seed (snd looped) = snd abstract)"
proof (induction "length f - i" arbitrary: i acc st)
  case 0
  then show ?case
    by (subst cross_over_loop_store.simps, subst cross_over_loop.simps) (simp add: Let_def)
next
  case (Suc n)
  then have i: "i < length f" and n: "n = length f - Suc i" by simp_all
  from r have alloc: "deep_copy_allocates copy"
    and cv: "\<And>nodes a. a < length nodes \<Longrightarrow>
         val (snd (copy nodes a)) (fst (copy nodes a)) = IRCopy ext (val nodes a)"
    and stable: "\<And>nodes nodes' a. a < length nodes \<Longrightarrow> take (length nodes) nodes' = nodes \<Longrightarrow>
         val nodes' a = val nodes a"
    by (auto simp: copy_refines_def)
  let ?die = "SampleUniformInt ext 0 2 (engine_rand_seed st)"
  let ?src = "if takes_father (fst ?die) then f ! i else m ! i"
  let ?cp = "copy (ir_nodes st) ?src"
  let ?st1 = "st\<lparr>engine_rand_seed := snd ?die, ir_nodes := snd ?cp\<rparr>"
  have src0: "?src < length nodes0" using v i lm by (auto simp: nth_mem)
  then have src: "?src < length (ir_nodes st)" using Suc.prems(2) by linarith
  from alloc have cp: "length (ir_nodes st) \<le> fst ?cp" "fst ?cp < length (snd ?cp)"
    "take (length (ir_nodes st)) (snd ?cp) = ir_nodes st"
    by (simp_all add: deep_copy_allocates_def)
  have lc: "length (ir_nodes st) \<le> length (snd ?cp)" using cp(1,2) by simp
  have p1: "take (length nodes0) (ir_nodes ?st1) = nodes0"
  proof -
    have "take (length nodes0) (snd ?cp) = take (length nodes0) (take (length (ir_nodes st)) (snd ?cp))"
      using Suc.prems(2) by (simp add: min_def)
    then show ?thesis using cp(3) Suc.prems(1) by simp
  qed
  have p2: "length nodes0 \<le> length (ir_nodes ?st1)" using lc Suc.prems(2) by simp
  have p3: "\<forall>a \<in> set (acc @ [fst ?cp]). a < length (ir_nodes ?st1)"
    using Suc.prems(3) cp(2) lc by auto
  have accv: "map (val (snd ?cp)) acc = map (val (ir_nodes st)) acc"
    using Suc.prems(3) stable [OF _ cp(3)] by simp
  have newv: "val (snd ?cp) (fst ?cp) = IRCopy ext (val nodes0 ?src)"
  proof -
    have "val (snd ?cp) (fst ?cp) = IRCopy ext (val (ir_nodes st) ?src)" by (rule cv [OF src])
    moreover have "val (ir_nodes st) ?src = val nodes0 ?src"
      by (rule stable [OF src0 Suc.prems(1)])
    ultimately show ?thesis by simp
  qed
  have sel: "val nodes0 ?src =
      (if takes_father (fst ?die) then map (val nodes0) f ! i else map (val nodes0) m ! i)"
    using i lm by simp
  note IH = Suc.hyps(1) [OF n p1 p2 p3]
  have unf1: "cross_over_loop_store ext copy f m i acc st =
      cross_over_loop_store ext copy f m (Suc i) (acc @ [fst ?cp]) ?st1"
    by (subst cross_over_loop_store.simps) (simp add: i Let_def)
  have unf2: "cross_over_loop ext (map (val nodes0) f) (map (val nodes0) m) i
                 (map (val (ir_nodes st)) acc) (engine_rand_seed st) =
      cross_over_loop ext (map (val nodes0) f) (map (val nodes0) m) (Suc i)
         (map (val (ir_nodes ?st1)) (acc @ [fst ?cp])) (engine_rand_seed ?st1)"
    by (subst cross_over_loop.simps) (simp add: i accv newv sel)
  show ?case unfolding unf1 unf2 using IH .
qed

lemma CrossOver_store_refines:
  assumes r: "copy_refines ext val copy"
    and h: "state1 < length (state_objs st)" "state2 < length (state_objs st)"
    and v: "\<forall>a \<in> set (exprs (state_objs st ! state1)) \<union> set (exprs (state_objs st ! state2)).
              a < length (ir_nodes st)"
    and s: "rand_seed es = engine_rand_seed st"
  shows "case CrossOver_store ext copy st state1 state2 of
           Inl e \<Rightarrow> CrossOver ext es (state_of_obj val (ir_nodes st) (state_objs st ! state1))
                      (state_of_obj val (ir_nodes st) (state_objs st ! state2)) = Inl e
         | Inr (child, st') \<Rightarrow>
             CrossOver ext es (state_of_obj val (ir_nodes st) (state_objs st ! state1))
                      (state_of_obj val (ir_nodes st) (state_objs st ! state2)) =
               Inr (state_of_obj val (ir_nodes st') child, es\<lparr>rand_seed := engine_rand_seed st'\<rparr>)"
proof (cases "length (exprs (state_objs st ! state1)) = length (exprs (state_objs st ! state2))")
  case False
  then show ?thesis using h by (simp add: CrossOver_store_def CrossOver_def state_of_obj_def)
next
  case True
  let ?f = "exprs (state_objs st ! state1)"
  let ?m = "exprs (state_objs st ! state2)"
  from cross_over_loop_store_refines [OF r v True, of st "[]" 0]
  have l: "map (val (ir_nodes (snd (cross_over_loop_store ext copy ?f ?m 0 [] st))))
             (fst (cross_over_loop_store ext copy ?f ?m 0 [] st)) =
           fst (cross_over_loop ext (map (val (ir_nodes st)) ?f) (map (val (ir_nodes st)) ?m) 0 []
                  (engine_rand_seed st))"
    "engine_rand_seed (snd (cross_over_loop_store ext copy ?f ?m 0 [] st)) =
           snd (cross_over_loop ext (map (val (ir_nodes st)) ?f) (map (val (ir_nodes st)) ?m) 0 []
                  (engine_rand_seed st))"
    by (simp_all add: Let_def)
  show ?thesis
    using h True l s
    by (simp add: CrossOver_store_def CrossOver_def state_of_obj_def Let_def split: prod.splits)
qed

subsection \<open>The epsilon-greedy pick\<close>

lemma fill_nil [simp]: "fill fp k [] rv = (rv, [])"
  by (cases k) auto

lemma phase3:
  assumes "length rs \<le> ri" "size_t_of_int nb \<le> length (fst rv) \<or> length bs \<le> bi"
  shows "pick_loop fp bs rs num nb rv bi ri =
           fst (fill fp (size_t_of_int num - length (fst rv)) (drop bi bs) rv)"
  using assms
proof (induction "length bs - bi" arbitrary: rv bi)
  case 0
  then show ?case by (subst pick_loop.simps) (auto)
next
  case (Suc n)
  then have bi: "bi < length bs" by simp
  show ?case
  proof (cases "length (fst rv) < size_t_of_int num")
    case False
    then show ?thesis by (subst pick_loop.simps) simp
  next
    case True
    then obtain k where k: "size_t_of_int num - length (fst rv) = Suc k"
      by (metis Suc_diff_Suc)
    let ?rv' = "deduplicate fp (bs ! bi) rv"
    have mono: "length (fst rv) \<le> length (fst ?rv')" by (simp add: deduplicate_def)
    have IH: "pick_loop fp bs rs num nb ?rv' (Suc bi) ri =
           fst (fill fp (size_t_of_int num - length (fst ?rv')) (drop (Suc bi) bs) ?rv')"
      apply (rule Suc.hyps(1))
      using Suc.hyps(2) Suc.prems mono by auto
    have unf: "pick_loop fp bs rs num nb rv bi ri = pick_loop fp bs rs num nb ?rv' (Suc bi) ri"
      apply (subst pick_loop.simps)
      using True bi Suc.prems by simp
    have dr: "drop bi bs = bs ! bi # drop (Suc bi) bs"
      using bi by (simp add: Cons_nth_drop_Suc)
    have k': "size_t_of_int num - Suc (length (fst rv)) = k" using k by simp
    show ?thesis
      unfolding unf IH dr k
      by (simp add: deduplicate_def k k')
  qed
qed

lemma phase2:
  assumes "size_t_of_int nb \<le> length (fst rv) \<or> length bs \<le> bi"
  shows "pick_loop fp bs rs num nb rv bi ri =
           fst (fill fp (size_t_of_int num -
                  length (fst (fst (fill fp (size_t_of_int num - length (fst rv)) (drop ri rs) rv))))
                (drop bi bs)
                (fst (fill fp (size_t_of_int num - length (fst rv)) (drop ri rs) rv)))"
  using assms
proof (induction "length rs - ri" arbitrary: rv ri)
  case 0
  then show ?case by (simp add: phase3)
next
  case (Suc n)
  then have ri: "ri < length rs" by simp
  show ?case
  proof (cases "length (fst rv) < size_t_of_int num")
    case False
    then show ?thesis by (subst pick_loop.simps) simp
  next
    case True
    then obtain k where k: "size_t_of_int num - length (fst rv) = Suc k"
      by (metis Suc_diff_Suc)
    let ?rv' = "deduplicate fp (rs ! ri) rv"
    have mono: "length (fst rv) \<le> length (fst ?rv')" by (simp add: deduplicate_def)
    have c: "size_t_of_int nb \<le> length (fst ?rv') \<or> length bs \<le> bi"
      using Suc.prems mono by auto
    have k': "size_t_of_int num - Suc (length (fst rv)) = k" using k by simp
    note IH = Suc.hyps(1) [of "Suc ri" ?rv', OF _ c]
    have unf: "pick_loop fp bs rs num nb rv bi ri = pick_loop fp bs rs num nb ?rv' bi (Suc ri)"
      apply (subst pick_loop.simps)
      using True ri Suc.prems by auto
    have dr: "drop ri rs = rs ! ri # drop (Suc ri) rs"
      using ri by (simp add: Cons_nth_drop_Suc)
    show ?thesis
      unfolding unf dr k
      apply (subst IH)
      using Suc.hyps(2) apply simp
      using k by (simp add: deduplicate_def k k')
  qed
qed

lemma phase1:
  assumes "size_t_of_int nb \<le> size_t_of_int num"
  shows "pick_loop fp bs rs num nb rv bi ri =
    (let (rv1, bests_left) = fill fp (size_t_of_int nb - length (fst rv)) (drop bi bs) rv;
         (rv2, randoms_left) = fill fp (size_t_of_int num - length (fst rv1)) (drop ri rs) rv1;
         (rv3, unused) = fill fp (size_t_of_int num - length (fst rv2)) bests_left rv2
      in rv3)"
proof (induction "length bs - bi" arbitrary: rv bi)
  case 0
  then show ?case by (simp add: phase2 split: prod.splits)
next
  case (Suc n)
  then have bi: "bi < length bs" by simp
  show ?case
  proof (cases "length (fst rv) < size_t_of_int nb")
    case False
    then show ?thesis by (simp add: phase2 split: prod.splits)
  next
    case True
    then obtain k where k: "size_t_of_int nb - length (fst rv) = Suc k"
      by (metis Suc_diff_Suc)
    let ?rv' = "deduplicate fp (bs ! bi) rv"
    have unf: "pick_loop fp bs rs num nb rv bi ri = pick_loop fp bs rs num nb ?rv' (Suc bi) ri"
      apply (subst pick_loop.simps)
      using True bi assms by auto
    have dr: "drop bi bs = bs ! bi # drop (Suc bi) bs"
      using bi by (simp add: Cons_nth_drop_Suc)
    have k': "size_t_of_int nb - Suc (length (fst rv)) = k" using k by simp
    note IH = Suc.hyps(1) [of "Suc bi" ?rv']
    show ?thesis
      unfolding unf dr k
      apply (subst IH)
      using Suc.hyps(2) apply simp
      using k by (simp add: deduplicate_def k k')
  qed
qed

lemma round_binary32_exact:
  assumes "\<bar>m\<bar> < 2 ^ 24" "- 149 \<le> e"
  shows "round_binary32 m e = \<lparr>significand = m, exponent = e\<rparr>"
proof -
  have "bitlen \<bar>m\<bar> \<le> 24" using assms(1) by (simp add: bitlen_le_iff_power)
  then show ?thesis using assms(2) by (simp add: round_binary32_def Let_def)
qed

lemma round_to_nearest_even_nonneg: "0 \<le> m \<Longrightarrow> 0 \<le> round_to_nearest_even m k"
  by (simp add: round_to_nearest_even_def Let_def pos_imp_zdiv_nonneg_iff)

lemma round_to_nearest_even_le:
  assumes "m \<le> N * 2 ^ k"
  shows "round_to_nearest_even m k \<le> N"
proof -
  have q: "m div 2 ^ k \<le> N"
    using zdiv_mono1 [OF assms, of "2 ^ k"] by simp
  show ?thesis
  proof (cases "m div 2 ^ k = N")
    case True
    have "m = N * 2 ^ k + m mod 2 ^ k"
      using div_mult_mod_eq [of m "2 ^ k"] True by simp
    with assms have "m mod 2 ^ k \<le> 0" by linarith
    moreover have "0 \<le> m mod (2 ^ k :: int)" by simp
    ultimately have "m mod 2 ^ k = 0" by linarith
    then show ?thesis using True by (simp add: round_to_nearest_even_def Let_def)
  next
    case False
    with q have "m div 2 ^ k + 1 \<le> N" by linarith
    then show ?thesis using q by (simp add: round_to_nearest_even_def Let_def)
  qed
qed

lemma float_to_int_zero: "float_to_int (round_binary32 0 e) = 0"
  by (simp add: round_binary32_def Let_def float_to_int_def round_to_nearest_even_def)

lemma num_rands_of_zero: "num_rands_of num \<lparr>significand = 0, exponent = e\<rparr> = 0"
  by (simp add: num_rands_of_def float_mul_def float_to_int_zero)

lemma fraction_bounds:
  assumes "0 \<le> float_value f" "float_value f \<le> 1" "significand f \<noteq> 0"
  shows "0 < significand f" "exponent f \<le> 0" "significand f \<le> 2 ^ nat (- exponent f)"
proof -
  show pos: "0 < significand f"
  proof (rule ccontr)
    assume "\<not> 0 < significand f"
    with assms(3) have neg: "significand f < 0" by simp
    then have "float_value f < 0"
      by (auto simp: float_value_def mult_less_0_iff divide_less_0_iff)
    with assms(1) show False by simp
  qed
  show e: "exponent f \<le> 0"
  proof (rule ccontr)
    assume "\<not> exponent f \<le> 0"
    then have p: "0 < exponent f" by simp
    then have "(2::int) \<le> 2 ^ nat (exponent f)"
      using self_le_power [of "2::int" "nat (exponent f)"] by simp
    with pos have "2 \<le> significand f * 2 ^ nat (exponent f)"
      by (smt (verit) mult_le_cancel_right1 mult.commute mult_mono)
    then have "real_of_int 2 \<le> real_of_int (significand f * 2 ^ nat (exponent f))"
      by (simp only: of_int_le_iff)
    then have "2 \<le> float_value f" using p by (simp add: float_value_def)
    with assms(2) show False by simp
  qed
  show "significand f \<le> 2 ^ nat (- exponent f)"
  proof (cases "exponent f = 0")
    case True
    with assms(2) show ?thesis by (simp add: float_value_def)
  next
    case False
    with e have "exponent f < 0" by simp
    with assms(2) have "real_of_int (significand f) / 2 ^ nat (- exponent f) \<le> 1"
      by (simp add: float_value_def)
    then have "real_of_int (significand f) \<le> 2 ^ nat (- exponent f)"
      by (simp add: divide_le_eq)
    then show ?thesis by (metis of_int_le_iff of_int_numeral of_int_power)
  qed
qed

lemma div_pow_le:
  assumes "0 \<le> (r::int)" "r \<le> N * 2 ^ j"
  shows "0 \<le> r div 2 ^ j \<and> r div 2 ^ j \<le> N"
proof -
  have "r div 2 ^ j \<le> (N * 2 ^ j) div 2 ^ j" by (rule zdiv_mono1 [OF assms(2)]) simp
  then show ?thesis using assms(1) by (simp add: pos_imp_zdiv_nonneg_iff)
qed

lemma float_to_int_scaled:
  assumes "0 \<le> r" "e \<le> 0" "r \<le> N * 2 ^ nat (- e)"
  shows "0 \<le> float_to_int \<lparr>significand = r, exponent = e\<rparr> \<and>
         float_to_int \<lparr>significand = r, exponent = e\<rparr> \<le> N"
proof (cases "e = 0")
  case True
  with assms show ?thesis by (simp add: float_to_int_def)
next
  case False
  with assms(2) have "e < 0" by simp
  then show ?thesis using div_pow_le [OF assms(1,3)] assms(1) by (simp add: float_to_int_def)
qed

lemma num_rands_of_bounds:
  assumes "0 \<le> num" "num < 2 ^ 24" "is_float32 eps" "0 \<le> float_value eps" "float_value eps \<le> 1"
  shows "0 \<le> num_rands_of num eps \<and> num_rands_of num eps \<le> num"
proof (cases "significand eps = 0")
  case True
  then show ?thesis using assms(1) by (simp add: num_rands_of_def float_mul_def float_to_int_zero)
next
  case False
  note fb = fraction_bounds [OF assms(4,5) False]
  define m where "m = significand eps"
  define e where "e = exponent eps"
  define n where "n = nat (- e)"
  define M where "M = num * m"
  have e: "e \<le> 0" "e = - int n" and m: "0 < m" "m \<le> 2 ^ n"
    using fb by (simp_all add: m_def e_def n_def)
  have e149: "- 149 \<le> e" using assms(3) by (simp add: is_float32_def e_def)
  have i2f: "int_to_float num = \<lparr>significand = num, exponent = 0\<rparr>"
    unfolding int_to_float_def using assms(1,2) by (intro round_binary32_exact) simp_all
  have nr: "num_rands_of num eps = float_to_int (round_binary32 M e)"
    by (simp add: num_rands_of_def float_mul_def i2f M_def m_def e_def)
  have M0: "0 \<le> M" using assms(1) m(1) by (simp add: M_def)
  have Mn: "M \<le> num * 2 ^ n" unfolding M_def using m(2) assms(1) by (simp add: mult_left_mono)
  define k where "k = max (bitlen \<bar>M\<bar> - 24) (- 149 - e)"
  show ?thesis
  proof (cases "k \<le> 0")
    case True
    then have "round_binary32 M e = \<lparr>significand = M, exponent = e\<rparr>"
      unfolding round_binary32_def Let_def k_def [symmetric] by simp
    then show ?thesis unfolding nr
      using float_to_int_scaled [OF M0 e(1), of num] Mn by (simp add: n_def)
  next
    case False
    then have kpos: "0 < k" by simp
    have "num * 2 ^ n < 2 ^ 24 * (2 ^ n :: int)"
      using assms(2) by (intro mult_strict_right_mono) simp_all
    with Mn have "M < 2 ^ 24 * (2 ^ n :: int)" by linarith
    then have "M < 2 ^ (24 + n)" by (simp only: power_add)
    then have "bitlen \<bar>M\<bar> \<le> 24 + int n"
      using M0 by (simp add: bitlen_le_iff_power nat_add_distrib)
    then have kn: "k \<le> int n" using e(2) by (simp add: k_def)
    define j where "j = n - nat k"
    have n: "n = j + nat k" using kn kpos by (simp add: j_def)
    have r: "round_binary32 M e =
        \<lparr>significand = round_to_nearest_even M (nat k), exponent = e + k\<rparr>"
      unfolding round_binary32_def Let_def k_def [symmetric] using False by simp
    have "M \<le> (num * 2 ^ j) * 2 ^ nat k" using Mn by (simp add: n power_add mult.assoc)
    then have R: "round_to_nearest_even M (nat k) \<le> num * 2 ^ j"
      by (rule round_to_nearest_even_le)
    have ek: "e + k \<le> 0" "nat (- (e + k)) = j" using kn e(2) kpos by (simp_all add: j_def)
    have R': "round_to_nearest_even M (nat k) \<le> num * 2 ^ nat (- (e + k))"
      using R by (simp only: ek(2))
    show ?thesis unfolding nr r
      by (rule float_to_int_scaled [OF round_to_nearest_even_nonneg [OF M0] ek(1) R'])
  qed
qed

lemma num_rands_of_exact:
  assumes "0 \<le> num" "num < 2 ^ 24" "is_float32 eps" "0 \<le> float_value eps" "float_value eps \<le> 1"
    and x: "\<bar>num * significand eps\<bar> < 2 ^ 24"
  shows "num_rands_of num eps = \<lfloor>real_of_int num * float_value eps\<rfloor>"
proof (cases "significand eps = 0")
  case True
  then have "float_value eps = 0" by (simp add: float_value_def)
  then show ?thesis using True by (simp add: num_rands_of_def float_mul_def float_to_int_zero)
next
  case False
  note fb = fraction_bounds [OF assms(4,5) False]
  have e149: "- 149 \<le> exponent eps" using assms(3) by (simp add: is_float32_def)
  have i2f: "int_to_float num = \<lparr>significand = num, exponent = 0\<rparr>"
    unfolding int_to_float_def using assms(1,2) by (intro round_binary32_exact) simp_all
  have nr: "num_rands_of num eps =
      float_to_int \<lparr>significand = num * significand eps, exponent = exponent eps\<rparr>"
    by (simp add: num_rands_of_def float_mul_def i2f round_binary32_exact [OF x e149])
  have M0: "0 \<le> num * significand eps" using assms(1) fb(1) by simp
  show ?thesis
  proof (cases "exponent eps = 0")
    case True
    have "\<lfloor>real_of_int num * real_of_int (significand eps)\<rfloor> = num * significand eps"
      by (metis floor_of_int of_int_mult)
    then show ?thesis unfolding nr using True by (simp add: float_to_int_def float_value_def)
  next
    case False
    with fb(2) have neg: "exponent eps < 0" by simp
    have "\<lfloor>real_of_int num * float_value eps\<rfloor> =
          \<lfloor>real_of_int (num * significand eps) / real_of_int (2 ^ nat (- exponent eps))\<rfloor>"
      using neg by (simp add: float_value_def)
    also have "\<dots> = (num * significand eps) div 2 ^ nat (- exponent eps)"
      by (rule floor_divide_of_int_eq)
    finally show ?thesis unfolding nr using neg M0 by (simp add: float_to_int_def)
  qed
qed

text \<open>
  Claim C2, as the code has it. For a budget \<open>num\<close> that is not negative and a binary32
  fraction \<open>eps_greedy\<close> between 0 and 1, \<^verbatim>\<open>num_rands\<close> is the binary32 product of \<^verbatim>\<open>num\<close>
  and \<^verbatim>\<open>eps_greedy\<close> truncated to \<^verbatim>\<open>int\<close> and \<^verbatim>\<open>num_bests\<close> is \<open>num - num_rands\<close>. For
  \<open>num\<close> below \<open>2 ^ 24\<close>, \<^verbatim>\<open>num_rands\<close> lies between 0 and \<open>num\<close>, and it is the floor of
  \<open>num * eps_greedy\<close> when the product needs no rounding. Whenever \<^verbatim>\<open>num_rands\<close> lies
  between 0 and \<open>num\<close>, the first \<^verbatim>\<open>num_bests\<close> kept slots are drawn from the bests in
  order, the remaining slots from the randoms in order, and when either supply runs out
  the open slots are filled from the other: the loop computes what \<open>eps_greedy_spec\<close>
  describes, the visited set included.
\<close>

theorem PickNextGenerationEpsGreedy_slots:
  assumes "0 \<le> num" "is_float32 eps_greedy" "0 \<le> float_value eps_greedy"
    "float_value eps_greedy \<le> 1"
  shows "num_rands_of num eps_greedy = float_to_int (float_mul (int_to_float num) eps_greedy) \<and>
         num_bests_of num eps_greedy = num - num_rands_of num eps_greedy \<and>
         (num < 2 ^ 24 \<longrightarrow>
            0 \<le> num_rands_of num eps_greedy \<and> num_rands_of num eps_greedy \<le> num) \<and>
         (num < 2 ^ 24 \<and> \<bar>num * significand eps_greedy\<bar> < 2 ^ 24 \<longrightarrow>
            num_rands_of num eps_greedy = \<lfloor>real_of_int num * float_value eps_greedy\<rfloor>) \<and>
         (0 \<le> num_rands_of num eps_greedy \<and> num_rands_of num eps_greedy \<le> num \<longrightarrow>
            PickNextGenerationEpsGreedy fp visited bests randoms num eps_greedy =
              eps_greedy_spec fp visited bests randoms (nat num)
                (nat (num - num_rands_of num eps_greedy)))"
proof (intro conjI impI)
  show "num_rands_of num eps_greedy = float_to_int (float_mul (int_to_float num) eps_greedy)"
    by (simp add: num_rands_of_def)
  show "num_bests_of num eps_greedy = num - num_rands_of num eps_greedy"
    by (simp add: num_bests_of_def)
next
  assume "num < 2 ^ 24"
  from num_rands_of_bounds [OF assms(1) this assms(2,3,4)]
  show "0 \<le> num_rands_of num eps_greedy" "num_rands_of num eps_greedy \<le> num" by simp_all
next
  assume "num < 2 ^ 24 \<and> \<bar>num * significand eps_greedy\<bar> < 2 ^ 24"
  then show "num_rands_of num eps_greedy = \<lfloor>real_of_int num * float_value eps_greedy\<rfloor>"
    using num_rands_of_exact [OF assms(1) _ assms(2,3,4)] by simp
next
  assume r: "0 \<le> num_rands_of num eps_greedy \<and> num_rands_of num eps_greedy \<le> num"
  then have nb: "0 \<le> num_bests_of num eps_greedy" "num_bests_of num eps_greedy \<le> num"
    by (simp_all add: num_bests_of_def)
  have le: "size_t_of_int (num_bests_of num eps_greedy) \<le> size_t_of_int num"
    using nb assms(1) by (simp add: size_t_of_int_def)
  have "PickNextGenerationEpsGreedy fp visited bests randoms num eps_greedy =
          eps_greedy_spec fp visited bests randoms (size_t_of_int num)
            (size_t_of_int (num_bests_of num eps_greedy))"
    unfolding PickNextGenerationEpsGreedy_def eps_greedy_spec_def
    by (subst phase1 [OF le]) simp
  moreover have "size_t_of_int num = nat num"
    "size_t_of_int (num_bests_of num eps_greedy) = nat (num_bests_of num eps_greedy)"
    using assms(1) nb by (simp_all add: size_t_of_int_def)
  ultimately show "PickNextGenerationEpsGreedy fp visited bests randoms num eps_greedy =
      eps_greedy_spec fp visited bests randoms (nat num) (nat (num - num_rands_of num eps_greedy))"
    by (simp add: num_bests_of_def)
qed

theorem PickNextGenerationEpsGreedy_slots_witness:
  "(0::int) \<le> 4 \<and> is_float32 \<lparr>significand = 1, exponent = - 1\<rparr> \<and>
   0 \<le> float_value \<lparr>significand = 1, exponent = - 1\<rparr> \<and>
   float_value \<lparr>significand = 1, exponent = - 1\<rparr> \<le> 1 \<and>
   (4::int) < 2 ^ 24 \<and> \<bar>4 * significand \<lparr>significand = 1, exponent = - 1\<rparr>\<bar> < 2 ^ 24 \<and>
   num_rands_of 4 \<lparr>significand = 1, exponent = - 1\<rparr> = 2 \<and>
   num_bests_of 4 \<lparr>significand = 1, exponent = - 1\<rparr> = 2 \<and>
   PickNextGenerationEpsGreedy (\<lambda>x. x) {} [1, 2, 3 :: nat] [4, 5] 4
       \<lparr>significand = 1, exponent = - 1\<rparr> =
     ([1, 2, 4, 5], {1, 2, 4, 5})"
proof -
  let ?half = "\<lparr>significand = 1, exponent = - 1\<rparr>"
  have h: "(0::int) \<le> 4" "is_float32 ?half" "0 \<le> float_value ?half" "float_value ?half \<le> 1"
    by (simp_all add: is_float32_def float_value_def)
  note t = PickNextGenerationEpsGreedy_slots [OF h, of "\<lambda>x. x" "{}" "[1, 2, 3 :: nat]" "[4, 5]"]
  have r: "num_rands_of 4 ?half = 2" using t by (simp add: float_value_def)
  have b: "num_bests_of 4 ?half = 2" using t r by simp
  have "PickNextGenerationEpsGreedy (\<lambda>x. x) {} [1, 2, 3 :: nat] [4, 5] 4 ?half =
          eps_greedy_spec (\<lambda>x. x) {} [1, 2, 3 :: nat] [4, 5] (nat 4) (nat (4 - 2))"
    using t r by simp
  then have "PickNextGenerationEpsGreedy (\<lambda>x. x) {} [1, 2, 3 :: nat] [4, 5] 4 ?half =
      ([1, 2, 4, 5], {1, 2, 4, 5})"
    by (auto simp: eps_greedy_spec_def eval_nat_numeral)
  with h r b show ?thesis by simp
qed

text \<open>
  Claim C2 as stated fails at \<open>num = 10\<close> and \<open>eps_greedy = 0.7f\<close>, the binary32 value
  \<open>11744051 / 2 ^ 24\<close>: the product rounds to 7, so \<^verbatim>\<open>num_rands\<close> is 7 and \<^verbatim>\<open>num_bests\<close> is
  3, while the floor of \<open>num * eps_greedy\<close> is 6. At \<open>num = 2 ^ 24 + 3\<close> and
  \<open>eps_greedy = 1\<close> the conversion of \<^verbatim>\<open>num\<close> rounds up, \<^verbatim>\<open>num_rands\<close> exceeds \<open>num\<close> and
  \<^verbatim>\<open>num_bests\<close> is negative.
\<close>

theorem PickNextGenerationEpsGreedy_slots_counterexample:
  "(0::int) \<le> 10 \<and> is_float32 \<lparr>significand = 11744051, exponent = - 24\<rparr> \<and>
   0 \<le> float_value \<lparr>significand = 11744051, exponent = - 24\<rparr> \<and>
   float_value \<lparr>significand = 11744051, exponent = - 24\<rparr> \<le> 1 \<and>
   num_rands_of 10 \<lparr>significand = 11744051, exponent = - 24\<rparr> = 7 \<and>
   num_bests_of 10 \<lparr>significand = 11744051, exponent = - 24\<rparr> = 3 \<and>
   \<lfloor>real_of_int 10 * float_value \<lparr>significand = 11744051, exponent = - 24\<rparr>\<rfloor> = 6 \<and>
   num_rands_of 16777219 \<lparr>significand = 1, exponent = 0\<rparr> = 16777220 \<and>
   num_bests_of 16777219 \<lparr>significand = 1, exponent = 0\<rparr> = - 1"
  by (simp add: is_float32_def float_value_def num_bests_of_def num_rands_of_def float_mul_def
      int_to_float_def round_binary32_def float_to_int_def round_to_nearest_even_def
      compute_bitlen Let_def)

lemma pick_loop_dedup:
  "\<exists>new. pick_loop fp bs rs num nb rv bi ri = (fst rv @ new, snd rv \<union> fp ` set new) \<and>
     distinct (map fp new) \<and> fp ` set new \<inter> snd rv = {}"
proof (induction fp bs rs num nb rv bi ri rule: pick_loop.induct)
  case (1 fp bs rs num nb rv bi ri)
  have step: "\<exists>new. pick_loop fp bs rs num nb (deduplicate fp x rv) bi' ri' = (fst rv @ new, snd rv \<union> fp ` set new) \<and>
     distinct (map fp new) \<and> fp ` set new \<inter> snd rv = {}"
    if "\<exists>new. pick_loop fp bs rs num nb (deduplicate fp x rv) bi' ri' =
          (fst (deduplicate fp x rv) @ new, snd (deduplicate fp x rv) \<union> fp ` set new) \<and>
          distinct (map fp new) \<and> fp ` set new \<inter> snd (deduplicate fp x rv) = {}"
    for x bi' ri'
  proof -
    from that obtain new where n:
      "pick_loop fp bs rs num nb (deduplicate fp x rv) bi' ri' =
          (fst (deduplicate fp x rv) @ new, snd (deduplicate fp x rv) \<union> fp ` set new)"
      "distinct (map fp new)" "fp ` set new \<inter> snd (deduplicate fp x rv) = {}" by blast
    show ?thesis
    proof (cases "fp x \<in> snd rv")
      case True
      then have "deduplicate fp x rv = rv" by (simp add: deduplicate_def)
      with n show ?thesis by auto
    next
      case False
      then have d: "deduplicate fp x rv = (fst rv @ [x], insert (fp x) (snd rv))"
        by (simp add: deduplicate_def)
      show ?thesis
        apply (rule exI [of _ "x # new"])
        using n False unfolding d by auto
    qed
  qed
  show ?case
    apply (subst pick_loop.simps)
    using 1 step
    apply simp
    apply (intro conjI impI)
     apply (rule exI [of _ "[]"], simp)+
    done
qed

lemma Pick_dedup:
  "\<exists>V'. PickNextGenerationEpsGreedy fp V bs rs num eps = (R, V') \<Longrightarrow>
     PickNextGenerationEpsGreedy fp V bs rs num eps = (R, V \<union> fp ` set R) \<and>
     distinct (map fp R) \<and> fp ` set R \<inter> V = {}"
  using pick_loop_dedup [of fp bs rs num "num_bests_of num eps" "([], V)" 0 0]
  unfolding PickNextGenerationEpsGreedy_def by (auto simp: disjoint_iff)

text \<open>
  Claim C3: over any sequence of rounds on one object, whose visited set persists, no two
  states returned by the pick have the same fingerprint, none of them was in the visited
  set before the first round, and the visited set after the last round is the one before
  the first together with the fingerprints of all the states returned: a candidate is
  returned only when it is recorded, and a recorded candidate is never returned.
\<close>

theorem pick_rounds_never_repeat:
  "distinct (map fp (concat (fst (pick_rounds fp V rounds)))) \<and>
   fp ` set (concat (fst (pick_rounds fp V rounds))) \<inter> V = {} \<and>
   snd (pick_rounds fp V rounds) = V \<union> fp ` set (concat (fst (pick_rounds fp V rounds)))"
proof (induction rounds arbitrary: V)
  case Nil
  then show ?case by simp
next
  case (Cons r rounds)
  obtain bs rs num eps where r: "r = (bs, rs, num, eps)" by (cases r) auto
  obtain R V' where p: "PickNextGenerationEpsGreedy fp V bs rs num eps = (R, V')"
    by (cases "PickNextGenerationEpsGreedy fp V bs rs num eps") auto
  from Pick_dedup [of fp V bs rs num eps R] p
  have V': "V' = V \<union> fp ` set R" and d: "distinct (map fp R)" and dj: "fp ` set R \<inter> V = {}"
    by auto
  let ?later = "concat (fst (pick_rounds fp V' rounds))"
  from Cons.IH [of V']
  have l: "distinct (map fp ?later)" "fp ` set ?later \<inter> V' = {}"
    "snd (pick_rounds fp V' rounds) = V' \<union> fp ` set ?later" by auto
  have c: "concat (fst (pick_rounds fp V (r # rounds))) = R @ ?later"
    and s: "snd (pick_rounds fp V (r # rounds)) = snd (pick_rounds fp V' rounds)"
    by (simp_all add: r p Let_def)
  have lV: "fp ` set ?later \<inter> V = {}" and lR: "fp ` set R \<inter> fp ` set ?later = {}"
    using l(2) unfolding V' by blast+
  have "distinct (map fp (R @ ?later))"
    using d l(1) lR by simp
  moreover have "fp ` set (R @ ?later) \<inter> V = {}"
    using dj lV by (simp add: image_Un Int_Un_distrib2)
  moreover have "snd (pick_rounds fp V' rounds) = V \<union> fp ` set (R @ ?later)"
    using l(3) V' by auto
  ultimately show ?case unfolding c s by blast
qed

text \<open>
  The same over the rounds of \<^verbatim>\<open>SearchModuleExprEpsGreedy\<close>: no other method of the
  object touches the visited set, so each round is a pick on the set that the previous
  round left.
\<close>

lemma CrossOver_visited:
  "CrossOver ext es state1 state2 = Inr (child, es') \<Longrightarrow>
   visited_candidates es' = visited_candidates es"
  by (auto simp: CrossOver_def Let_def split: if_splits prod.splits)

lemma evolve_cross_overs_visited:
  "evolve_cross_overs ext population rounds evolution es = Some (Inr (evolution', es')) \<Longrightarrow>
   visited_candidates es' = visited_candidates es"
proof (induction rounds arbitrary: evolution es)
  case 0
  then show ?case by simp
next
  case (Suc rounds)
  let ?g = "int (length population)"
  let ?fd = "SampleUniformInt ext 0 ?g (rand_seed es)"
  let ?sd = "SampleUniformInt ext 0 ?g (snd ?fd)"
  from Suc.prems obtain second rand where
    d: "distinct_second_idx ext ?g (fst ?fd) (fst ?sd) (snd ?sd) = Some (second, rand)"
    by (cases "distinct_second_idx ext ?g (fst ?fd) (fst ?sd) (snd ?sd)") (auto simp: Let_def)
  let ?co = "CrossOver ext (es\<lparr>rand_seed := rand\<rparr>) (population ! nat (fst ?fd))
               (population ! nat second)"
  from Suc.prems d have
    e: "(case ?co of Inl e \<Rightarrow> Some (Inl e)
         | Inr (child, es1) \<Rightarrow> evolve_cross_overs ext population rounds (evolution @ [child]) es1)
        = Some (Inr (evolution', es'))"
    by (simp add: Let_def split: if_splits)
  then obtain child es1 where c: "?co = Inr (child, es1)"
    by (cases ?co) auto
  with e have rest: "evolve_cross_overs ext population rounds (evolution @ [child]) es1 =
      Some (Inr (evolution', es'))" by simp
  from Suc.IH [OF rest] CrossOver_visited [OF c] show ?case by simp
qed

lemma Evolve_visited:
  assumes "Evolve ext es population cross_over_num ret_num = Some (Inr (bests, es'))"
  shows "visited_candidates es' = visited_candidates es"
proof (cases "population = []")
  case True
  with assms show ?thesis by (simp add: Evolve_def)
next
  case False
  let ?x = "evolve_cross_overs ext population (nat cross_over_num) population es"
  from assms False obtain evolution es1 where x: "?x = Some (Inr (evolution, es1))"
    by (cases ?x) (auto simp: Evolve_def split: sum.splits)
  with assms False have "es' = es1\<lparr>search_space :=
      snd (push_mutated ext (size_t_of_int ret_num) evolution (search_space es1) [])\<rparr>"
    by (simp add: Evolve_def Let_def)
  with evolve_cross_overs_visited [OF x] show ?thesis by simp
qed

lemma GetTopKCandidatesFromDatabase_visited:
  "GetTopKCandidatesFromDatabase ext task_key es topk = Inr (results, es') \<Longrightarrow>
   visited_candidates es' = visited_candidates es \<and> search_space es' = search_space es"
  by (auto simp: GetTopKCandidatesFromDatabase_def split: sum.splits)

lemma SearchModuleExprBests_visited:
  assumes "SearchModuleExprBests ext task_key es options = Some (Inr (bests, es'))"
  shows "visited_candidates es' = visited_candidates es"
proof -
  let ?t = "GetTopKCandidatesFromDatabase ext task_key es (evolution_pick_database_topk options)"
  from assms obtain topk es1 where t: "?t = Inr (topk, es1)"
    by (cases ?t) (auto simp: SearchModuleExprBests_def)
  let ?sk = "InitSketch ext es1 (evolution_init_population_num options - int (length topk))
               ''rule_prune''"
  from assms t have "Evolve ext (snd ?sk) (topk @ fst ?sk) (evolution_cross_over_num options)
      (num_samples_per_iteration options) = Some (Inr (bests, es'))"
    by (simp add: SearchModuleExprBests_def Let_def)
  from Evolve_visited [OF this] GetTopKCandidatesFromDatabase_visited [OF t]
  show ?thesis by (simp add: InitSketch_def Let_def)
qed

lemma SearchModuleExprEpsGreedy_is_pick:
  assumes "SearchModuleExprEpsGreedy ext task_key es options = Some (Inr (results, es'))"
  shows "\<exists>picked_bests random_init.
           PickNextGenerationEpsGreedy fingerprint (visited_candidates es) picked_bests random_init
             (num_samples_per_iteration options) (evolution_eps_greedy options) =
           (results, visited_candidates es')"
proof (cases "SearchModuleExprBests ext task_key es options")
  case None
  with assms show ?thesis by (simp add: SearchModuleExprEpsGreedy_def)
next
  case (Some outcome)
  show ?thesis
  proof (cases outcome)
    case (Inl e)
    with assms Some show ?thesis by (simp add: SearchModuleExprEpsGreedy_def)
  next
    case (Inr p)
    obtain picked_bests es1 where p: "p = (picked_bests, es1)" by (cases p)
    have b: "SearchModuleExprBests ext task_key es options = Some (Inr (picked_bests, es1))"
      using Some Inr p by simp
    let ?random_init = "InitSketch ext es1 (evolution_init_population_num options -
                              evolution_pick_database_topk options) ''random_prune''"
    have v: "visited_candidates (snd ?random_init) = visited_candidates es"
      using SearchModuleExprBests_visited [OF b] by (simp add: InitSketch_def Let_def)
    from assms have
      "fst (PickNextGenerationEpsGreedy fingerprint (visited_candidates (snd ?random_init))
         picked_bests (fst ?random_init) (num_samples_per_iteration options)
         (evolution_eps_greedy options)) = results"
      "snd (PickNextGenerationEpsGreedy fingerprint (visited_candidates (snd ?random_init))
         picked_bests (fst ?random_init) (num_samples_per_iteration options)
         (evolution_eps_greedy options)) = visited_candidates es'"
      unfolding SearchModuleExprEpsGreedy_def b by (auto simp: Let_def)
    then have
      "PickNextGenerationEpsGreedy fingerprint (visited_candidates es) picked_bests
         (fst ?random_init) (num_samples_per_iteration options) (evolution_eps_greedy options) =
       (results, visited_candidates es')"
      unfolding v by (simp add: prod_eq_iff)
    then show ?thesis by blast
  qed
qed

lemma search_rounds_never_repeat:
  "search_rounds ext task_key es rounds = Some (Inr (returned, es')) \<Longrightarrow>
   distinct (map fingerprint (concat returned)) \<and>
   fingerprint ` set (concat returned) \<inter> visited_candidates es = {} \<and>
   visited_candidates es' = visited_candidates es \<union> fingerprint ` set (concat returned)"
proof (induction rounds arbitrary: es returned)
  case Nil
  then show ?case by simp
next
  case (Cons options rounds)
  from Cons.prems obtain results es1 where
    r: "SearchModuleExprEpsGreedy ext task_key es options = Some (Inr (results, es1))"
    by (cases "SearchModuleExprEpsGreedy ext task_key es options")
      (auto split: sum.splits)
  with Cons.prems obtain later where
    l: "search_rounds ext task_key es1 rounds = Some (Inr (later, es'))"
    and ret: "returned = results # later"
    by (cases "search_rounds ext task_key es1 rounds") (auto split: sum.splits)
  from SearchModuleExprEpsGreedy_is_pick [OF r] obtain picked_bests random_init where
    pk: "PickNextGenerationEpsGreedy fingerprint (visited_candidates es) picked_bests random_init
       (num_samples_per_iteration options) (evolution_eps_greedy options) =
     (results, visited_candidates es1)" by blast
  then have "\<exists>V'. PickNextGenerationEpsGreedy fingerprint (visited_candidates es) picked_bests
       random_init (num_samples_per_iteration options) (evolution_eps_greedy options) =
     (results, V')" by blast
  from Pick_dedup [OF this] pk
  have V1: "visited_candidates es1 = visited_candidates es \<union> fingerprint ` set results"
    and d: "distinct (map fingerprint results)"
    and dj: "fingerprint ` set results \<inter> visited_candidates es = {}"
    by simp_all
  from Cons.IH [OF l]
  have i: "distinct (map fingerprint (concat later))"
    "fingerprint ` set (concat later) \<inter> visited_candidates es1 = {}"
    "visited_candidates es' = visited_candidates es1 \<union> fingerprint ` set (concat later)"
    by auto
  have lV: "fingerprint ` set (concat later) \<inter> visited_candidates es = {}"
    and lR: "fingerprint ` set results \<inter> fingerprint ` set (concat later) = {}"
    using i(2) unfolding V1 by blast+
  have "distinct (map fingerprint (results @ concat later))"
    using d i(1) lR by simp
  moreover have "fingerprint ` set (results @ concat later) \<inter> visited_candidates es = {}"
    using dj lV by (simp add: image_Un Int_Un_distrib2)
  moreover have "visited_candidates es' =
      visited_candidates es \<union> fingerprint ` set (results @ concat later)"
    unfolding i(3) V1 by (simp add: image_Un Un_assoc)
  ultimately show ?case unfolding ret by simp
qed

lemma pick_loop_length_le:
  "length (fst rv) \<le> size_t_of_int num \<Longrightarrow>
   length (fst (pick_loop fp bs rs num nb rv bi ri))
     \<le> min (size_t_of_int num) (length (fst rv) + (length bs - bi) + (length rs - ri))"
proof (induction fp bs rs num nb rv bi ri rule: pick_loop.induct)
  case (1 fp bs rs num nb rv bi ri)
  have d: "length (fst (deduplicate fp x rv)) \<le> Suc (length (fst rv))" for x
    by (simp add: deduplicate_def)
  have d2: "length (fst rv) < size_t_of_int num \<Longrightarrow>
      length (fst (deduplicate fp x rv)) \<le> size_t_of_int num" for x
    using d [of x] by simp
  show ?case
  proof (cases "length (fst rv) < size_t_of_int num")
    case False
    then show ?thesis using "1.prems" by (subst pick_loop.simps) simp
  next
    case lt: True
    consider (a) "length (fst rv) < size_t_of_int nb \<and> bi < length bs"
      | (b) "\<not> (length (fst rv) < size_t_of_int nb \<and> bi < length bs)" "ri < length rs"
      | (c) "\<not> (length (fst rv) < size_t_of_int nb \<and> bi < length bs)" "\<not> ri < length rs" "bi < length bs"
      | (e) "\<not> (length (fst rv) < size_t_of_int nb \<and> bi < length bs)" "\<not> ri < length rs" "\<not> bi < length bs"
      by blast
    then show ?thesis
    proof cases
      case a
      from "1.IH"(1) [OF _ a d2 [OF lt]] lt
      have "length (fst (pick_loop fp bs rs num nb (deduplicate fp (bs ! bi) rv) (Suc bi) ri))
         \<le> min (size_t_of_int num) (length (fst (deduplicate fp (bs ! bi) rv)) + (length bs - Suc bi) + (length rs - ri))"
        by simp
      then show ?thesis
        apply (subst pick_loop.simps)
        using a lt d [of "bs ! bi"] by (simp, arith)
    next
      case b
      from "1.IH"(2) [OF _ b d2 [OF lt]] lt
      have "length (fst (pick_loop fp bs rs num nb (deduplicate fp (rs ! ri) rv) bi (Suc ri)))
         \<le> min (size_t_of_int num) (length (fst (deduplicate fp (rs ! ri) rv)) + (length bs - bi) + (length rs - Suc ri))"
        by simp
      then show ?thesis
        apply (subst pick_loop.simps)
        using b lt d [of "rs ! ri"] by (simp, arith)
    next
      case c
      from "1.IH"(3) [OF _ c d2 [OF lt]] lt
      have "length (fst (pick_loop fp bs rs num nb (deduplicate fp (bs ! bi) rv) (Suc bi) ri))
         \<le> min (size_t_of_int num) (length (fst (deduplicate fp (bs ! bi) rv)) + (length bs - Suc bi) + (length rs - ri))"
        by simp
      then show ?thesis
        apply (subst pick_loop.simps)
        using c lt d [of "bs ! bi"] by (simp, arith)
    next
      case e
      then show ?thesis
        apply (subst pick_loop.simps)
        using lt by simp
    qed
  qed
qed

lemma fresh_step:
  assumes "distinct (map fp (pre @ x # post))" "fp ` set (pre @ x # post) \<inter> V = {}"
  shows "fp x \<notin> V" "distinct (map fp (pre @ post))"
    "fp ` set (pre @ post) \<inter> insert (fp x) V = {}"
proof -
  have a: "fp x \<notin> fp ` set pre" "fp x \<notin> fp ` set post" "distinct (map fp pre)"
    "distinct (map fp post)" "fp ` set pre \<inter> fp ` set post = {}"
    using assms(1) by auto
  have b: "fp x \<notin> V" "fp ` set pre \<inter> V = {}" "fp ` set post \<inter> V = {}"
    using assms(2) by auto
  show "fp x \<notin> V" by (rule b(1))
  show "distinct (map fp (pre @ post))" using a by simp
  show "fp ` set (pre @ post) \<inter> insert (fp x) V = {}"
    using a(1,2) b(2,3) by (simp add: image_Un Int_Un_distrib2)
qed

lemma pick_loop_length_eq:
  "length (fst rv) \<le> size_t_of_int num \<Longrightarrow>
   distinct (map fp (drop bi bs @ drop ri rs)) \<Longrightarrow>
   fp ` set (drop bi bs @ drop ri rs) \<inter> snd rv = {} \<Longrightarrow>
   length (fst (pick_loop fp bs rs num nb rv bi ri))
     = min (size_t_of_int num) (length (fst rv) + (length bs - bi) + (length rs - ri))"
proof (induction fp bs rs num nb rv bi ri rule: pick_loop.induct)
  case (1 fp bs rs num nb rv bi ri)
  show ?case
  proof (cases "length (fst rv) < size_t_of_int num")
    case False
    then show ?thesis using "1.prems"(1) by (subst pick_loop.simps) simp
  next
    case lt: True
    have takeb: ?thesis
      if bi: "bi < length bs"
        and unf: "pick_loop fp bs rs num nb rv bi ri =
               pick_loop fp bs rs num nb (deduplicate fp (bs ! bi) rv) (Suc bi) ri"
        and IH: "\<And>rv'. rv' = deduplicate fp (bs ! bi) rv \<Longrightarrow> length (fst rv') \<le> size_t_of_int num \<Longrightarrow>
           distinct (map fp (drop (Suc bi) bs @ drop ri rs)) \<Longrightarrow>
           fp ` set (drop (Suc bi) bs @ drop ri rs) \<inter> snd rv' = {} \<Longrightarrow>
           length (fst (pick_loop fp bs rs num nb rv' (Suc bi) ri))
             = min (size_t_of_int num) (length (fst rv') + (length bs - Suc bi) + (length rs - ri))"
    proof -
      have dr: "drop bi bs @ drop ri rs = [] @ bs ! bi # (drop (Suc bi) bs @ drop ri rs)"
        using bi by (simp add: Cons_nth_drop_Suc)
      note f = fresh_step [of fp "[]" "bs ! bi" "drop (Suc bi) bs @ drop ri rs" "snd rv",
          OF "1.prems"(2) [unfolded dr] "1.prems"(3) [unfolded dr]]
      have d: "deduplicate fp (bs ! bi) rv = (fst rv @ [bs ! bi], insert (fp (bs ! bi)) (snd rv))"
        using f(1) by (simp add: deduplicate_def)
      have "length (fst (pick_loop fp bs rs num nb (deduplicate fp (bs ! bi) rv) (Suc bi) ri))
             = min (size_t_of_int num)
                 (length (fst (deduplicate fp (bs ! bi) rv)) + (length bs - Suc bi) + (length rs - ri))"
        apply (rule IH [OF refl])
        using lt f by (simp_all add: d)
      moreover have "length bs - bi = Suc (length bs - Suc bi)" using bi by simp
      ultimately show ?thesis
        unfolding unf by (simp add: d)
    qed
    consider (a) "length (fst rv) < size_t_of_int nb \<and> bi < length bs"
      | (b) "\<not> (length (fst rv) < size_t_of_int nb \<and> bi < length bs)" "ri < length rs"
      | (c) "\<not> (length (fst rv) < size_t_of_int nb \<and> bi < length bs)" "\<not> ri < length rs" "bi < length bs"
      | (e) "\<not> (length (fst rv) < size_t_of_int nb \<and> bi < length bs)" "\<not> ri < length rs" "\<not> bi < length bs"
      by blast
    then show ?thesis
    proof cases
      case a
      show ?thesis
        apply (rule takeb)
        using a apply simp
         apply (subst pick_loop.simps)
        using a lt apply simp
        using "1.IH"(1) [OF _ a] lt by simp
    next
      case b
      have dr: "drop bi bs @ drop ri rs = drop bi bs @ rs ! ri # (drop (Suc ri) rs)"
        using b by (simp add: Cons_nth_drop_Suc)
      note f = fresh_step [of fp "drop bi bs" "rs ! ri" "drop (Suc ri) rs" "snd rv",
          OF "1.prems"(2) [unfolded dr] "1.prems"(3) [unfolded dr]]
      have d: "deduplicate fp (rs ! ri) rv = (fst rv @ [rs ! ri], insert (fp (rs ! ri)) (snd rv))"
        using f(1) by (simp add: deduplicate_def)
      have "length (fst (pick_loop fp bs rs num nb (deduplicate fp (rs ! ri) rv) bi (Suc ri)))
             = min (size_t_of_int num)
                 (length (fst (deduplicate fp (rs ! ri) rv)) + (length bs - bi) + (length rs - Suc ri))"
        apply (rule "1.IH"(2) [OF _ b])
        using lt f by (simp_all add: d)
      moreover have "pick_loop fp bs rs num nb rv bi ri =
               pick_loop fp bs rs num nb (deduplicate fp (rs ! ri) rv) bi (Suc ri)"
        apply (subst pick_loop.simps)
        using b lt by auto
      moreover have "length rs - ri = Suc (length rs - Suc ri)" using b by simp
      ultimately show ?thesis
        by (simp add: d)
    next
      case c
      show ?thesis
        apply (rule takeb)
        using c apply simp
         apply (subst pick_loop.simps)
        using c lt apply simp
        using "1.IH"(3) [OF _ c] lt by simp
    next
      case e
      then show ?thesis
        apply (subst pick_loop.simps)
        using lt by simp
    qed
  qed
qed

text \<open>
  Claim C4, as the code has it: for a budget that is not negative the returned list is
  never longer than the minimum of \<^verbatim>\<open>num\<close> and the number of candidates, and it has
  exactly that length when the candidates of both lists have pairwise different
  fingerprints of which none is in the visited set. A candidate that is skipped as
  visited fills no slot.
\<close>

theorem PickNextGenerationEpsGreedy_length:
  assumes "0 \<le> num"
  shows "length (fst (PickNextGenerationEpsGreedy fp visited bests randoms num eps_greedy))
           \<le> min (nat num) (length bests + length randoms) \<and>
         (distinct (map fp (bests @ randoms)) \<and> fp ` set (bests @ randoms) \<inter> visited = {} \<longrightarrow>
          length (fst (PickNextGenerationEpsGreedy fp visited bests randoms num eps_greedy))
           = min (nat num) (length bests + length randoms))"
proof -
  have n: "size_t_of_int num = nat num" using assms by (simp add: size_t_of_int_def)
  show ?thesis
    unfolding PickNextGenerationEpsGreedy_def
    using pick_loop_length_le [of "([], visited)" num fp bests randoms "num_bests_of num eps_greedy" 0 0]
      pick_loop_length_eq [of "([], visited)" num fp 0 bests 0 randoms "num_bests_of num eps_greedy"]
    by (simp add: n)
qed

theorem PickNextGenerationEpsGreedy_length_witness:
  "(0::int) \<le> 2 \<and> distinct (map (\<lambda>x. x) ([1::nat] @ [2])) \<and>
   (\<lambda>x. x) ` set ([1::nat] @ [2]) \<inter> {} = {} \<and>
   length (fst (PickNextGenerationEpsGreedy (\<lambda>x. x) {} [1::nat] [2] 2
                  \<lparr>significand = 1, exponent = - 1\<rparr>)) = 2"
  using PickNextGenerationEpsGreedy_length
          [of 2 "\<lambda>x. x" "{}" "[1::nat]" "[2]" "\<lparr>significand = 1, exponent = - 1\<rparr>"]
  by simp

text \<open>
  Claim C4 as stated fails when a candidate is deduplicated: with the same state in the
  bests and in the randoms and a budget of 2, one state is returned, not two.
\<close>

theorem PickNextGenerationEpsGreedy_length_counterexample:
  "length (fst (PickNextGenerationEpsGreedy (\<lambda>x. x) {} [0::nat] [0] 2
                  \<lparr>significand = 0, exponent = 0\<rparr>))
     \<noteq> min 2 (length [0::nat] + length [0::nat])"
  by (simp add: PickNextGenerationEpsGreedy_def num_bests_of_def num_rands_of_zero
      size_t_of_int_def pick_loop.simps deduplicate_def)

subsection \<open>Evolve\<close>

lemma sample_below_one:
  assumes "sampler_in_range ext"
  shows "fst (SampleUniformInt ext 0 1 rand) = 0"
proof -
  have "fst (SampleUniformInt ext 0 1 rand) \<in> set (uniform_int_outcomes 0 1)"
    using assms by (simp add: sampler_in_range_def)
  then show ?thesis by (simp add: uniform_int_outcomes_def)
qed

lemma distinct_second_idx_step:
  assumes IH: "\<And>ext n a b rand y. f ext n a b rand = Some y \<Longrightarrow>
                 sampler_in_range ext \<longrightarrow> n = 1 \<longrightarrow> a = 0 \<longrightarrow> b = 0 \<longrightarrow> False"
    and eq: "(if a = b then f ext n a (fst (SampleUniformInt ext 0 n rand))
                              (snd (SampleUniformInt ext 0 n rand))
              else Some (b, rand)) = Some y"
  shows "sampler_in_range ext \<longrightarrow> n = 1 \<longrightarrow> a = 0 \<longrightarrow> b = 0 \<longrightarrow> False"
proof (intro impI)
  assume s: "sampler_in_range ext" and e: "n = 1" "a = 0" "b = 0"
  from eq e have "f ext 1 0 (fst (SampleUniformInt ext 0 1 rand))
                    (snd (SampleUniformInt ext 0 1 rand)) = Some y" by simp
  then have "f ext 1 0 0 (snd (SampleUniformInt ext 0 1 rand)) = Some y"
    by (simp add: sample_below_one [OF s])
  from IH [OF this] s show False by simp
qed

lemma distinct_second_idx_never_returns:
  assumes s: "sampler_in_range ext"
  shows "distinct_second_idx ext 1 0 0 rand = None"
proof (cases "distinct_second_idx ext 1 0 0 rand")
  case None
  then show ?thesis .
next
  case (Some y)
  have "sampler_in_range ext \<longrightarrow> (1::int) = 1 \<longrightarrow> (0::int) = 0 \<longrightarrow> (0::int) = 0 \<longrightarrow> False"
    by (rule distinct_second_idx.raw_induct
        [where P = "\<lambda>ext n a b rand y. sampler_in_range ext \<longrightarrow> n = 1 \<longrightarrow> a = 0 \<longrightarrow> b = 0 \<longrightarrow> False",
          OF _ Some])
      (rule distinct_second_idx_step)
  with s show ?thesis by simp
qed

text \<open>
  Claim C5 asks that \<^verbatim>\<open>Evolve\<close> returns for every population. With a population of
  one state and at least one crossover it does not: both indices drawn are 0, the only
  outcome below 1, and the loop that draws the second index again never leaves.
\<close>

theorem Evolve_single_parent_never_returns:
  assumes "sampler_in_range ext" "0 < cross_over_num"
  shows "Evolve ext es [parent] cross_over_num ret_num = None"
proof -
  obtain k where k: "nat cross_over_num = Suc k"
    using assms(2) by (metis Suc_pred' zero_less_nat_eq)
  have "evolve_cross_overs ext [parent] (Suc k) [parent] es = None"
    by (simp add: Let_def sample_below_one [OF assms(1)]
        distinct_second_idx_never_returns [OF assms(1)])
  then show ?thesis by (simp add: Evolve_def k)
qed

theorem Evolve_single_parent_never_returns_witness:
  "sampler_in_range (example_collaborators []) \<and> (0::int) < 1 \<and>
   Evolve (example_collaborators [])
     \<lparr>rand_seed = 1, search_space = (), visited_candidates = {}\<rparr>
     [\<lparr>ir_schedule = \<lparr>module_expr = [0], sch_rand_seed = 1\<rparr>, predicted_cost = None\<rparr>] 1 4 = None"
  using Evolve_single_parent_never_returns [where ext = "example_collaborators []"
      and cross_over_num = 1 and ret_num = 4
      and es = "\<lparr>rand_seed = 1, search_space = (), visited_candidates = {}\<rparr>"
      and parent = "\<lparr>ir_schedule = \<lparr>module_expr = [0], sch_rand_seed = 1\<rparr>, predicted_cost = None\<rparr>"]
    example_sampler_in_range [of "[]"]
  by simp

subsection \<open>Warm starts\<close>

lemma warm_start_schedule_Suc:
  "warm_start_schedule ext task_key rand (Suc i) =
   warm_start_schedule ext task_key (snd (ForkRandomState ext rand)) i"
  by (simp add: warm_start_schedule_def)

lemma replay_records_all:
  "\<forall>i < length records. \<exists>replayed.
      ReplayWithProto ext (trace (records ! i)) (warm_start_schedule ext task_key rand i)
        = Inr replayed \<Longrightarrow>
   \<exists>new. replay_records ext task_key records results rand =
            Inr (results @ new, seed_after_forks ext (length records) rand) \<and>
      length new = length records \<and>
      (\<forall>i < length records.
         ReplayWithProto ext (trace (records ! i)) (warm_start_schedule ext task_key rand i)
           = Inr (ir_schedule (new ! i)) \<and>
         predicted_cost (new ! i) = Some (record_predicted_cost (records ! i)))"
proof (induction records arbitrary: results rand)
  case Nil
  then show ?case by simp
next
  case (Cons r records)
  let ?rand' = "snd (ForkRandomState ext rand)"
  from Cons.prems [rule_format, of 0] obtain replayed where
    r: "ReplayWithProto ext (trace r) (warm_start_schedule ext task_key rand 0) = Inr replayed"
    by auto
  let ?st = "\<lparr>ir_schedule = replayed, predicted_cost = Some (record_predicted_cost r)\<rparr>"
  have "\<forall>i < length records. \<exists>replayed.
      ReplayWithProto ext (trace (records ! i)) (warm_start_schedule ext task_key ?rand' i)
        = Inr replayed"
  proof (intro allI impI)
    fix i assume "i < length records"
    with Cons.prems [rule_format, of "Suc i"]
    show "\<exists>replayed. ReplayWithProto ext (trace (records ! i))
            (warm_start_schedule ext task_key ?rand' i) = Inr replayed"
      by (simp add: warm_start_schedule_Suc)
  qed
  from Cons.IH [OF this, of "results @ [?st]"] obtain new where n:
    "replay_records ext task_key records (results @ [?st]) ?rand' =
       Inr ((results @ [?st]) @ new, seed_after_forks ext (length records) ?rand')"
    "length new = length records"
    "\<forall>i < length records.
         ReplayWithProto ext (trace (records ! i)) (warm_start_schedule ext task_key ?rand' i)
           = Inr (ir_schedule (new ! i)) \<and>
         predicted_cost (new ! i) = Some (record_predicted_cost (records ! i))"
    by blast
  have unf: "replay_records ext task_key (r # records) results rand =
      replay_records ext task_key records (results @ [?st]) ?rand'"
    using r by (simp add: Let_def warm_start_schedule_def)
  have each: "\<forall>i < length (r # records).
         ReplayWithProto ext (trace ((r # records) ! i)) (warm_start_schedule ext task_key rand i)
           = Inr (ir_schedule ((?st # new) ! i)) \<and>
         predicted_cost ((?st # new) ! i) = Some (record_predicted_cost ((r # records) ! i))"
  proof (intro allI impI)
    fix i assume i: "i < length (r # records)"
    show "ReplayWithProto ext (trace ((r # records) ! i)) (warm_start_schedule ext task_key rand i)
           = Inr (ir_schedule ((?st # new) ! i)) \<and>
         predicted_cost ((?st # new) ! i) = Some (record_predicted_cost ((r # records) ! i))"
    proof (cases i)
      case 0
      then show ?thesis using r by simp
    next
      case (Suc j)
      with i have "j < length records" by simp
      with n(3) Suc show ?thesis by (simp add: warm_start_schedule_Suc)
    qed
  qed
  show ?case
    apply (rule exI [of _ "?st # new"])
    unfolding unf n(1)
    using n(2) each by simp
qed

lemma replay_records_first_failure:
  "i < length records \<Longrightarrow>
   \<forall>j < i. \<exists>replayed.
      ReplayWithProto ext (trace (records ! j)) (warm_start_schedule ext task_key rand j)
        = Inr replayed \<Longrightarrow>
   ReplayWithProto ext (trace (records ! i)) (warm_start_schedule ext task_key rand i) = Inl e \<Longrightarrow>
   replay_records ext task_key records results rand = Inl e"
proof (induction records arbitrary: results rand i)
  case Nil
  then show ?case by simp
next
  case (Cons r records)
  let ?rand' = "snd (ForkRandomState ext rand)"
  show ?case
  proof (cases i)
    case 0
    with Cons.prems(3) show ?thesis by (simp add: Let_def warm_start_schedule_def)
  next
    case (Suc k)
    from Cons.prems(2) [rule_format, of 0] Suc obtain replayed where
      r: "ReplayWithProto ext (trace r) (warm_start_schedule ext task_key rand 0) = Inr replayed"
      by auto
    let ?st = "\<lparr>ir_schedule = replayed, predicted_cost = Some (record_predicted_cost r)\<rparr>"
    have unf: "replay_records ext task_key (r # records) results rand =
        replay_records ext task_key records (results @ [?st]) ?rand'"
      using r by (simp add: Let_def warm_start_schedule_def)
    have k: "k < length records" using Cons.prems(1) Suc by simp
    have before: "\<forall>j < k. \<exists>replayed.
        ReplayWithProto ext (trace (records ! j)) (warm_start_schedule ext task_key ?rand' j)
          = Inr replayed"
    proof (intro allI impI)
      fix j assume "j < k"
      with Cons.prems(2) [rule_format, of "Suc j"] Suc
      show "\<exists>replayed. ReplayWithProto ext (trace (records ! j))
              (warm_start_schedule ext task_key ?rand' j) = Inr replayed"
        by (simp add: warm_start_schedule_Suc)
    qed
    have fails: "ReplayWithProto ext (trace (records ! k))
        (warm_start_schedule ext task_key ?rand' k) = Inl e"
      using Cons.prems(3) Suc by (simp add: warm_start_schedule_Suc)
    show ?thesis unfolding unf by (rule Cons.IH [OF k before fails])
  qed
qed

text \<open>
  Claim C7, as the code has it: \<^verbatim>\<open>GetTopKCandidatesFromDatabase\<close> replays every record
  that the database returns on a schedule built from a copy of the task's seed IR and a
  forked random state, and has no handler for a replay that fails. When every replay
  succeeds it returns one state for each record, in order, holding the replayed schedule
  and the predicted cost of the record, and the random state of the search has forked
  once for each record. When the replay of some record fails, the first such failure
  ends the call and no list is returned, so no record is dropped and the others kept.
\<close>

theorem GetTopKCandidatesFromDatabase_replays_all:
  "((\<forall>i < length (GetTopK ext task_key topk). \<exists>replayed.
        ReplayWithProto ext (trace (GetTopK ext task_key topk ! i))
          (warm_start_schedule ext task_key (rand_seed es) i) = Inr replayed) \<longrightarrow>
      (\<exists>results.
         GetTopKCandidatesFromDatabase ext task_key es topk =
           Inr (results, es\<lparr>rand_seed := seed_after_forks ext
                                  (length (GetTopK ext task_key topk)) (rand_seed es)\<rparr>) \<and>
         length results = length (GetTopK ext task_key topk) \<and>
         (\<forall>i < length (GetTopK ext task_key topk).
            ReplayWithProto ext (trace (GetTopK ext task_key topk ! i))
              (warm_start_schedule ext task_key (rand_seed es) i)
              = Inr (ir_schedule (results ! i)) \<and>
            predicted_cost (results ! i) =
              Some (record_predicted_cost (GetTopK ext task_key topk ! i))))) \<and>
   (\<forall>i e. i < length (GetTopK ext task_key topk) \<and>
      (\<forall>j < i. \<exists>replayed.
         ReplayWithProto ext (trace (GetTopK ext task_key topk ! j))
           (warm_start_schedule ext task_key (rand_seed es) j) = Inr replayed) \<and>
      ReplayWithProto ext (trace (GetTopK ext task_key topk ! i))
        (warm_start_schedule ext task_key (rand_seed es) i) = Inl e \<longrightarrow>
      GetTopKCandidatesFromDatabase ext task_key es topk = Inl e)"
proof (intro conjI impI allI)
  assume "\<forall>i < length (GetTopK ext task_key topk). \<exists>replayed.
        ReplayWithProto ext (trace (GetTopK ext task_key topk ! i))
          (warm_start_schedule ext task_key (rand_seed es) i) = Inr replayed"
  from replay_records_all [OF this, of "[]"]
  show "\<exists>results.
         GetTopKCandidatesFromDatabase ext task_key es topk =
           Inr (results, es\<lparr>rand_seed := seed_after_forks ext
                                  (length (GetTopK ext task_key topk)) (rand_seed es)\<rparr>) \<and>
         length results = length (GetTopK ext task_key topk) \<and>
         (\<forall>i < length (GetTopK ext task_key topk).
            ReplayWithProto ext (trace (GetTopK ext task_key topk ! i))
              (warm_start_schedule ext task_key (rand_seed es) i)
              = Inr (ir_schedule (results ! i)) \<and>
            predicted_cost (results ! i) =
              Some (record_predicted_cost (GetTopK ext task_key topk ! i)))"
    by (auto simp: GetTopKCandidatesFromDatabase_def)
next
  fix i e
  assume a: "i < length (GetTopK ext task_key topk) \<and>
      (\<forall>j < i. \<exists>replayed.
         ReplayWithProto ext (trace (GetTopK ext task_key topk ! j))
           (warm_start_schedule ext task_key (rand_seed es) j) = Inr replayed) \<and>
      ReplayWithProto ext (trace (GetTopK ext task_key topk ! i))
        (warm_start_schedule ext task_key (rand_seed es) i) = Inl e"
  then have "replay_records ext task_key (GetTopK ext task_key topk) [] (rand_seed es) = Inl e"
    by (intro replay_records_first_failure [of i]) blast+
  then show "GetTopKCandidatesFromDatabase ext task_key es topk = Inl e"
    by (simp add: GetTopKCandidatesFromDatabase_def)
qed

theorem GetTopKCandidatesFromDatabase_replays_all_witness:
  "(\<exists>results es'. GetTopKCandidatesFromDatabase
       (example_collaborators [\<lparr>trace = 4, record_predicted_cost = 1\<rparr>,
                               \<lparr>trace = 3, record_predicted_cost = 2\<rparr>])
       ''task'' \<lparr>rand_seed = 1, search_space = (), visited_candidates = {}\<rparr> 2 = Inr (results, es') \<and>
       length results = length [4, 3 :: nat] \<and>
       module_expr (ir_schedule (results ! 0)) = [7, 4] \<and>
       module_expr (ir_schedule (results ! 1)) = [7, 3] \<and>
       predicted_cost (results ! 0) = Some 1 \<and> predicted_cost (results ! 1) = Some 2) \<and>
   GetTopKCandidatesFromDatabase
       (example_collaborators [\<lparr>trace = 4, record_predicted_cost = 1\<rparr>,
                               \<lparr>trace = 0, record_predicted_cost = 2\<rparr>])
       ''task'' \<lparr>rand_seed = 1, search_space = (), visited_candidates = {}\<rparr> 2
     = Inl ReplayFailure"
proof -
  let ?ok = "example_collaborators [\<lparr>trace = 4, record_predicted_cost = 1\<rparr>,
                               \<lparr>trace = 3, record_predicted_cost = 2\<rparr>]"
  let ?bad = "example_collaborators [\<lparr>trace = 4, record_predicted_cost = 1\<rparr>,
                               \<lparr>trace = 0, record_predicted_cost = 2\<rparr>]"
  let ?es = "\<lparr>rand_seed = 1, search_space = (), visited_candidates = {}\<rparr> :: (nat, unit) EvolutionarySearch"
  note ok = GetTopKCandidatesFromDatabase_replays_all
     [where ext = ?ok and task_key = "''task''" and topk = 2 and es = ?es, THEN conjunct1,
      THEN mp]
  note bad = GetTopKCandidatesFromDatabase_replays_all
     [where ext = ?bad and task_key = "''task''" and topk = 2 and es = ?es, THEN conjunct2,
      rule_format, of 1 ReplayFailure]
  have all: "\<forall>i < length (GetTopK ?ok ''task'' 2). \<exists>replayed.
        ReplayWithProto ?ok (trace (GetTopK ?ok ''task'' 2 ! i))
          (warm_start_schedule ?ok ''task'' (rand_seed ?es) i) = Inr replayed"
    by (simp add: less_Suc_eq eval_nat_numeral all_conj_distrib nth_Cons')
  from ok [OF all] obtain results where r:
    "GetTopKCandidatesFromDatabase ?ok ''task'' ?es 2 =
       Inr (results, ?es\<lparr>rand_seed := seed_after_forks ?ok (length (GetTopK ?ok ''task'' 2))
                                         (rand_seed ?es)\<rparr>)"
    "length results = length (GetTopK ?ok ''task'' 2)"
    "\<forall>i < length (GetTopK ?ok ''task'' 2).
        ReplayWithProto ?ok (trace (GetTopK ?ok ''task'' 2 ! i))
          (warm_start_schedule ?ok ''task'' (rand_seed ?es) i) = Inr (ir_schedule (results ! i)) \<and>
        predicted_cost (results ! i) = Some (record_predicted_cost (GetTopK ?ok ''task'' 2 ! i))"
    by blast
  have g: "GetTopK ?ok ''task'' 2 = [\<lparr>trace = 4, record_predicted_cost = 1\<rparr>,
                                     \<lparr>trace = 3, record_predicted_cost = 2\<rparr>]"
    by (simp add: eval_nat_numeral)
  from r(3) [rule_format, of 0]
  have "Inr (ir_schedule (results ! 0)) =
          (Inr \<lparr>module_expr = [7, 4], sch_rand_seed = lcg_next 1\<rparr> :: error + nat IRSchedule)"
    and c0: "predicted_cost (results ! 0) = Some 1"
    by (simp_all add: g warm_start_schedule_def)
  then have s0: "ir_schedule (results ! 0) = \<lparr>module_expr = [7, 4], sch_rand_seed = lcg_next 1\<rparr>"
    by simp
  from r(3) [rule_format, of 1]
  have "Inr (ir_schedule (results ! 1)) =
          (Inr \<lparr>module_expr = [7, 3], sch_rand_seed = lcg_next (lcg_next 1)\<rparr>
             :: error + nat IRSchedule)"
    and c1: "predicted_cost (results ! 1) = Some 2"
    by (simp_all add: g warm_start_schedule_def)
  then have s1: "ir_schedule (results ! 1) =
      \<lparr>module_expr = [7, 3], sch_rand_seed = lcg_next (lcg_next 1)\<rparr>"
    by simp
  have each: "module_expr (ir_schedule (results ! 0)) = [7, 4]"
    "module_expr (ir_schedule (results ! 1)) = [7, 3]"
    "predicted_cost (results ! 0) = Some 1" "predicted_cost (results ! 1) = Some 2"
    using s0 s1 c0 c1 by simp_all
  have first: "\<exists>results es'. GetTopKCandidatesFromDatabase ?ok ''task'' ?es 2 = Inr (results, es') \<and>
       length results = length [4, 3 :: nat] \<and>
       module_expr (ir_schedule (results ! 0)) = [7, 4] \<and>
       module_expr (ir_schedule (results ! 1)) = [7, 3] \<and>
       predicted_cost (results ! 0) = Some 1 \<and> predicted_cost (results ! 1) = Some 2"
    using r(1,2) each by (simp add: g)
  have second: "GetTopKCandidatesFromDatabase ?bad ''task'' ?es 2 = Inl ReplayFailure"
    by (rule bad) (simp add: eval_nat_numeral)
  from first second show ?thesis by blast
qed

text \<open>
  Claim C7 as stated fails on a database whose first record does not replay: the call
  ends with the failure, and the second record, which replays, is not returned.
\<close>

theorem GetTopKCandidatesFromDatabase_counterexample:
  "GetTopKCandidatesFromDatabase
     (example_collaborators [\<lparr>trace = 0, record_predicted_cost = 1\<rparr>,
                             \<lparr>trace = 3, record_predicted_cost = 2\<rparr>])
     ''task'' \<lparr>rand_seed = 1, search_space = (), visited_candidates = {}\<rparr> 2
   = Inl ReplayFailure"
  by (simp add: GetTopKCandidatesFromDatabase_def Let_def)

subsection \<open>SearchModuleExpr\<close>

lemma Evolve_empty: "Evolve ext es [] cross_over_num ret_num = Some (Inr ([], es))"
  by (simp add: Evolve_def)

lemma SearchModuleExprBests_eq:
  "SearchModuleExprBests ext task_key es options =
     (case init_population_of ext task_key es options of
        Inl e \<Rightarrow> Some (Inl e)
      | Inr (init_population, es') \<Rightarrow>
          Evolve ext es' init_population (evolution_cross_over_num options)
            (num_samples_per_iteration options))"
  by (simp add: SearchModuleExprBests_def init_population_of_def Let_def split: sum.splits prod.splits)

lemma length_multiset_insert: "length (multiset_insert cmp x xs) = Suc (length xs)"
  by (induction xs) auto

lemma length_SizedMultiSet_Push:
  "length xs \<le> capacity \<Longrightarrow>
   length (SizedMultiSet_Push capacity cmp x xs) = min capacity (Suc (length xs))"
  by (auto simp: SizedMultiSet_Push_def Let_def length_multiset_insert)

lemma length_push_mutated:
  "length evolution_with_cost \<le> capacity \<Longrightarrow>
   length (fst (push_mutated ext capacity evolution space evolution_with_cost)) =
     min capacity (length evolution_with_cost + length evolution)"
proof (induction evolution arbitrary: space evolution_with_cost)
  case Nil
  then show ?case by simp
next
  case (Cons state evolution)
  let ?pushed = "SizedMultiSet_Push capacity (state_less ext)
                   (fst (GetScheduleMutate ext space state)) evolution_with_cost"
  have l: "length ?pushed = min capacity (Suc (length evolution_with_cost))"
    by (rule length_SizedMultiSet_Push [OF Cons.prems])
  then have "length ?pushed \<le> capacity" by simp
  from Cons.IH [OF this, of "snd (GetScheduleMutate ext space state)"] l
  show ?case by (simp add: Let_def)
qed

lemma evolve_cross_overs_length:
  "evolve_cross_overs ext population rounds evolution es = Some (Inr (evolution', es')) \<Longrightarrow>
   length evolution' = length evolution + rounds"
proof (induction rounds arbitrary: evolution es)
  case 0
  then show ?case by simp
next
  case (Suc rounds)
  let ?g = "int (length population)"
  let ?fd = "SampleUniformInt ext 0 ?g (rand_seed es)"
  let ?sd = "SampleUniformInt ext 0 ?g (snd ?fd)"
  from Suc.prems obtain second rand where
    d: "distinct_second_idx ext ?g (fst ?fd) (fst ?sd) (snd ?sd) = Some (second, rand)"
    by (cases "distinct_second_idx ext ?g (fst ?fd) (fst ?sd) (snd ?sd)") (auto simp: Let_def)
  let ?co = "CrossOver ext (es\<lparr>rand_seed := rand\<rparr>) (population ! nat (fst ?fd))
               (population ! nat second)"
  from Suc.prems d have
    e: "(case ?co of Inl e \<Rightarrow> Some (Inl e)
         | Inr (child, es1) \<Rightarrow> evolve_cross_overs ext population rounds (evolution @ [child]) es1)
        = Some (Inr (evolution', es'))"
    by (simp add: Let_def split: if_splits)
  then obtain child es1 where c: "?co = Inr (child, es1)"
    by (cases ?co) auto
  with e have rest: "evolve_cross_overs ext population rounds (evolution @ [child]) es1 =
      Some (Inr (evolution', es'))" by simp
  from Suc.IH [OF rest] show ?case by simp
qed

lemma Evolve_length:
  assumes "Evolve ext es population cross_over_num ret_num = Some (Inr (bests, es'))"
  shows "length bests =
     (if population = [] then 0
      else min (size_t_of_int ret_num) (length population + nat cross_over_num))"
proof (cases "population = []")
  case True
  with assms show ?thesis by (simp add: Evolve_def)
next
  case False
  let ?x = "evolve_cross_overs ext population (nat cross_over_num) population es"
  from assms False obtain evolution es1 where x: "?x = Some (Inr (evolution, es1))"
    by (cases ?x) (auto simp: Evolve_def split: sum.splits)
  with assms False have "bests =
      fst (push_mutated ext (size_t_of_int ret_num) evolution (search_space es1) [])"
    by (simp add: Evolve_def Let_def)
  with evolve_cross_overs_length [OF x] False show ?thesis
    by (simp add: length_push_mutated)
qed

text \<open>
  Claim C10, as the code has it: \<^verbatim>\<open>SearchModuleExpr\<close> returns element 0 of the list that
  \<^verbatim>\<open>SearchModuleExprBests\<close> returns, and has a value only when that list is not empty.
  A non-empty initial population is necessary for that and not sufficient. With an empty
  initial population (no record from the database and no sketch)
  \<^verbatim>\<open>SearchModuleExprBests\<close> returns the empty list and the index is out of bounds.
  Whenever \<^verbatim>\<open>SearchModuleExprBests\<close> returns a list for a non-empty population, the list
  has as many states as the smaller of \<^verbatim>\<open>num_samples_per_iteration\<close> (as a \<^verbatim>\<open>size_t\<close>)
  and the size of the population plus the number of crossovers: it is empty as well
  when \<^verbatim>\<open>num_samples_per_iteration\<close> is 0.
\<close>

theorem SearchModuleExpr_takes_first:
  "(\<forall>picked_bests es'.
      SearchModuleExprBests ext task_key es options = Some (Inr (picked_bests, es')) \<longrightarrow>
      SearchModuleExpr ext task_key es options =
        (if picked_bests = [] then Some (Inl OutOfBounds)
         else Some (Inr (picked_bests ! 0, es')))) \<and>
   (GetTopK ext task_key (evolution_pick_database_topk options) = [] \<and>
    fst (GenerateSketches ext (search_space es) (evolution_init_population_num options)
           ''rule_prune'') = [] \<longrightarrow>
      (\<exists>es'. SearchModuleExprBests ext task_key es options = Some (Inr ([], es'))) \<and>
      SearchModuleExpr ext task_key es options = Some (Inl OutOfBounds)) \<and>
   (\<forall>init_population es1 picked_bests es'.
      init_population_of ext task_key es options = Inr (init_population, es1) \<and>
      SearchModuleExprBests ext task_key es options = Some (Inr (picked_bests, es')) \<longrightarrow>
      length picked_bests =
        (if init_population = [] then 0
         else min (size_t_of_int (num_samples_per_iteration options))
                (length init_population + nat (evolution_cross_over_num options)))) \<and>
   (\<forall>first es'.
      SearchModuleExpr ext task_key es options = Some (Inr (first, es')) \<longrightarrow>
      (\<exists>init_population es1.
         init_population_of ext task_key es options = Inr (init_population, es1) \<and>
         init_population \<noteq> [] \<and> num_samples_per_iteration options \<noteq> 0))"
proof (intro conjI allI impI)
  fix picked_bests es'
  assume "SearchModuleExprBests ext task_key es options = Some (Inr (picked_bests, es'))"
  then show "SearchModuleExpr ext task_key es options =
        (if picked_bests = [] then Some (Inl OutOfBounds)
         else Some (Inr (picked_bests ! 0, es')))"
    by (simp add: SearchModuleExpr_def)
next
  assume a: "GetTopK ext task_key (evolution_pick_database_topk options) = [] \<and>
    fst (GenerateSketches ext (search_space es) (evolution_init_population_num options)
           ''rule_prune'') = []"
  then have b: "\<exists>es'. SearchModuleExprBests ext task_key es options = Some (Inr ([], es'))"
    by (simp add: SearchModuleExprBests_def GetTopKCandidatesFromDatabase_def InitSketch_def
        Let_def Evolve_empty)
  then show "\<exists>es'. SearchModuleExprBests ext task_key es options = Some (Inr ([], es'))" .
  from b show "SearchModuleExpr ext task_key es options = Some (Inl OutOfBounds)"
    by (auto simp: SearchModuleExpr_def)
next
  fix init_population es1 picked_bests es'
  assume a: "init_population_of ext task_key es options = Inr (init_population, es1) \<and>
      SearchModuleExprBests ext task_key es options = Some (Inr (picked_bests, es'))"
  then have "Evolve ext es1 init_population (evolution_cross_over_num options)
      (num_samples_per_iteration options) = Some (Inr (picked_bests, es'))"
    by (auto simp: SearchModuleExprBests_eq)
  then show "length picked_bests =
        (if init_population = [] then 0
         else min (size_t_of_int (num_samples_per_iteration options))
                (length init_population + nat (evolution_cross_over_num options)))"
    by (rule Evolve_length)
next
  fix first es'
  assume v: "SearchModuleExpr ext task_key es options = Some (Inr (first, es'))"
  then obtain picked_bests where
    b: "SearchModuleExprBests ext task_key es options = Some (Inr (picked_bests, es'))"
    and ne: "picked_bests \<noteq> []"
    by (cases "SearchModuleExprBests ext task_key es options")
      (auto simp: SearchModuleExpr_def split: sum.splits if_splits)
  from b obtain init_population es1 where
    p: "init_population_of ext task_key es options = Inr (init_population, es1)"
    by (cases "init_population_of ext task_key es options")
      (auto simp: SearchModuleExprBests_eq)
  with b have "Evolve ext es1 init_population (evolution_cross_over_num options)
      (num_samples_per_iteration options) = Some (Inr (picked_bests, es'))"
    by (simp add: SearchModuleExprBests_eq)
  note len = Evolve_length [OF this]
  from ne have pos: "0 < length picked_bests" by simp
  have "init_population \<noteq> []" using len pos by (auto split: if_splits)
  moreover have "size_t_of_int (num_samples_per_iteration options) \<noteq> 0"
  proof
    assume "size_t_of_int (num_samples_per_iteration options) = 0"
    with len have "length picked_bests = 0" by (simp split: if_splits)
    with pos show False by simp
  qed
  ultimately
  have "init_population \<noteq> []" "size_t_of_int (num_samples_per_iteration options) \<noteq> 0" .
  then have "init_population \<noteq> [] \<and> num_samples_per_iteration options \<noteq> 0"
    by (auto simp: size_t_of_int_def)
  with p show "\<exists>init_population es1.
         init_population_of ext task_key es options = Inr (init_population, es1) \<and>
         init_population \<noteq> [] \<and> num_samples_per_iteration options \<noteq> 0"
    by blast
qed

theorem SearchModuleExpr_takes_first_witness:
  "SearchModuleExpr (example_collaborators []) ''task''
     \<lparr>rand_seed = 1, search_space = (), visited_candidates = {}\<rparr>
     \<lparr>num_samples_per_iteration = 2, evolution_pick_database_topk = 0,
      evolution_init_population_num = 2, evolution_cross_over_num = 0,
      evolution_eps_greedy = \<lparr>significand = 0, exponent = 0\<rparr>\<rparr>
   = Some (Inr (\<lparr>ir_schedule = \<lparr>module_expr = [0], sch_rand_seed = 1\<rparr>, predicted_cost = None\<rparr>,
               \<lparr>rand_seed = 1, search_space = (), visited_candidates = {}\<rparr>)) \<and>
   (\<exists>init_population es1 picked_bests es'.
      init_population_of (example_collaborators []) ''task''
        \<lparr>rand_seed = 1, search_space = (), visited_candidates = {}\<rparr>
        \<lparr>num_samples_per_iteration = 2, evolution_pick_database_topk = 0,
         evolution_init_population_num = 2, evolution_cross_over_num = 0,
         evolution_eps_greedy = \<lparr>significand = 0, exponent = 0\<rparr>\<rparr>
      = Inr (init_population, es1) \<and>
      SearchModuleExprBests (example_collaborators []) ''task''
        \<lparr>rand_seed = 1, search_space = (), visited_candidates = {}\<rparr>
        \<lparr>num_samples_per_iteration = 2, evolution_pick_database_topk = 0,
         evolution_init_population_num = 2, evolution_cross_over_num = 0,
         evolution_eps_greedy = \<lparr>significand = 0, exponent = 0\<rparr>\<rparr>
      = Some (Inr (picked_bests, es')) \<and>
      init_population \<noteq> [] \<and> length picked_bests = min 2 (length init_population)) \<and>
   SearchModuleExpr (example_collaborators []) ''task''
     \<lparr>rand_seed = 1, search_space = (), visited_candidates = {}\<rparr>
     \<lparr>num_samples_per_iteration = 2, evolution_pick_database_topk = 0,
      evolution_init_population_num = 0, evolution_cross_over_num = 0,
      evolution_eps_greedy = \<lparr>significand = 0, exponent = 0\<rparr>\<rparr>
   = Some (Inl OutOfBounds)"
proof -
  let ?ex = "example_collaborators [] :: (nat, nat, unit) collaborators"
  let ?es = "\<lparr>rand_seed = 1, search_space = (), visited_candidates = {}\<rparr> :: (nat, unit) EvolutionarySearch"
  let ?two = "\<lparr>num_samples_per_iteration = 2, evolution_pick_database_topk = 0,
      evolution_init_population_num = 2, evolution_cross_over_num = 0,
      evolution_eps_greedy = \<lparr>significand = 0, exponent = 0\<rparr>\<rparr>"
  let ?none = "\<lparr>num_samples_per_iteration = 2, evolution_pick_database_topk = 0,
      evolution_init_population_num = 0, evolution_cross_over_num = 0,
      evolution_eps_greedy = \<lparr>significand = 0, exponent = 0\<rparr>\<rparr>"
  let ?s0 = "\<lparr>ir_schedule = \<lparr>module_expr = [0::nat], sch_rand_seed = 1\<rparr>, predicted_cost = None\<rparr>"
  let ?s1 = "\<lparr>ir_schedule = \<lparr>module_expr = [1::nat], sch_rand_seed = 1\<rparr>, predicted_cost = None\<rparr>"
  note t = SearchModuleExpr_takes_first [of ?ex "''task''" ?es ?two]
  have b: "SearchModuleExprBests ?ex ''task'' ?es ?two = Some (Inr ([?s0, ?s1], ?es))"
    by (simp add: SearchModuleExprBests_def GetTopKCandidatesFromDatabase_def InitSketch_def
        Let_def Evolve_def size_t_of_int_def SizedMultiSet_Push_def eval_nat_numeral)
  from t b
  have 1: "SearchModuleExpr ?ex ''task'' ?es ?two = Some (Inr (?s0, ?es))" by simp
  from t 1 obtain init_population es1 where
    p: "init_population_of ?ex ''task'' ?es ?two = Inr (init_population, es1)" by blast
  from t 1 p have ne: "init_population \<noteq> []" by auto
  from t b p have "length [?s0, ?s1] =
      (if init_population = [] then 0
       else min (size_t_of_int (num_samples_per_iteration ?two))
              (length init_population + nat (evolution_cross_over_num ?two)))"
    by blast
  with ne have "length [?s0, ?s1] = min 2 (length init_population)"
    by (simp add: size_t_of_int_def)
  with p b ne have 2: "\<exists>init_population es1 picked_bests es'.
      init_population_of ?ex ''task'' ?es ?two = Inr (init_population, es1) \<and>
      SearchModuleExprBests ?ex ''task'' ?es ?two = Some (Inr (picked_bests, es')) \<and>
      init_population \<noteq> [] \<and> length picked_bests = min 2 (length init_population)"
    by blast
  from SearchModuleExpr_takes_first [of ?ex "''task''" ?es ?none]
  have 3: "SearchModuleExpr ?ex ''task'' ?es ?none = Some (Inl OutOfBounds)" by simp
  from 1 2 3 show ?thesis by blast
qed

text \<open>
  Claim C10 as stated takes a non-empty initial population for a non-empty list. With a
  population of two states and \<^verbatim>\<open>num_samples_per_iteration = 0\<close> the list is empty and
  the index is out of bounds; with a population of one state and one crossover
  \<^verbatim>\<open>SearchModuleExprBests\<close> returns no list at all.
\<close>

theorem SearchModuleExpr_counterexample:
  "init_population_of (example_collaborators []) ''task''
     \<lparr>rand_seed = 1, search_space = (), visited_candidates = {}\<rparr>
     \<lparr>num_samples_per_iteration = 0, evolution_pick_database_topk = 0,
      evolution_init_population_num = 2, evolution_cross_over_num = 0,
      evolution_eps_greedy = \<lparr>significand = 0, exponent = 0\<rparr>\<rparr>
   = Inr ([\<lparr>ir_schedule = \<lparr>module_expr = [0], sch_rand_seed = 1\<rparr>, predicted_cost = None\<rparr>,
           \<lparr>ir_schedule = \<lparr>module_expr = [1], sch_rand_seed = 1\<rparr>, predicted_cost = None\<rparr>],
          \<lparr>rand_seed = 1, search_space = (), visited_candidates = {}\<rparr>) \<and>
   SearchModuleExpr (example_collaborators []) ''task''
     \<lparr>rand_seed = 1, search_space = (), visited_candidates = {}\<rparr>
     \<lparr>num_samples_per_iteration = 0, evolution_pick_database_topk = 0,
      evolution_init_population_num = 2, evolution_cross_over_num = 0,
      evolution_eps_greedy = \<lparr>significand = 0, exponent = 0\<rparr>\<rparr>
   = Some (Inl OutOfBounds) \<and>
   init_population_of (example_collaborators []) ''task''
     \<lparr>rand_seed = 1, search_space = (), visited_candidates = {}\<rparr>
     \<lparr>num_samples_per_iteration = 2, evolution_pick_database_topk = 0,
      evolution_init_population_num = 1, evolution_cross_over_num = 1,
      evolution_eps_greedy = \<lparr>significand = 0, exponent = 0\<rparr>\<rparr>
   = Inr ([\<lparr>ir_schedule = \<lparr>module_expr = [0], sch_rand_seed = 1\<rparr>, predicted_cost = None\<rparr>],
          \<lparr>rand_seed = 1, search_space = (), visited_candidates = {}\<rparr>) \<and>
   SearchModuleExpr (example_collaborators []) ''task''
     \<lparr>rand_seed = 1, search_space = (), visited_candidates = {}\<rparr>
     \<lparr>num_samples_per_iteration = 2, evolution_pick_database_topk = 0,
      evolution_init_population_num = 1, evolution_cross_over_num = 1,
      evolution_eps_greedy = \<lparr>significand = 0, exponent = 0\<rparr>\<rparr>
   = None"
proof -
  let ?ex = "example_collaborators [] :: (nat, nat, unit) collaborators"
  let ?es = "\<lparr>rand_seed = 1, search_space = (), visited_candidates = {}\<rparr> :: (nat, unit) EvolutionarySearch"
  let ?zero = "\<lparr>num_samples_per_iteration = 0, evolution_pick_database_topk = 0,
      evolution_init_population_num = 2, evolution_cross_over_num = 0,
      evolution_eps_greedy = \<lparr>significand = 0, exponent = 0\<rparr>\<rparr>"
  let ?one = "\<lparr>num_samples_per_iteration = 2, evolution_pick_database_topk = 0,
      evolution_init_population_num = 1, evolution_cross_over_num = 1,
      evolution_eps_greedy = \<lparr>significand = 0, exponent = 0\<rparr>\<rparr>"
  let ?s0 = "\<lparr>ir_schedule = \<lparr>module_expr = [0::nat], sch_rand_seed = 1\<rparr>, predicted_cost = None\<rparr>"
  let ?s1 = "\<lparr>ir_schedule = \<lparr>module_expr = [1::nat], sch_rand_seed = 1\<rparr>, predicted_cost = None\<rparr>"
  have p0: "init_population_of ?ex ''task'' ?es ?zero = Inr ([?s0, ?s1], ?es)"
    by (simp add: init_population_of_def GetTopKCandidatesFromDatabase_def InitSketch_def
        Let_def eval_nat_numeral)
  have b0: "SearchModuleExprBests ?ex ''task'' ?es ?zero = Some (Inr ([], ?es))"
    by (simp add: SearchModuleExprBests_eq p0 Evolve_def size_t_of_int_def
        SizedMultiSet_Push_def Let_def)
  have r0: "SearchModuleExpr ?ex ''task'' ?es ?zero = Some (Inl OutOfBounds)"
    by (simp add: SearchModuleExpr_def b0)
  have p1: "init_population_of ?ex ''task'' ?es ?one = Inr ([?s0], ?es)"
    by (simp add: init_population_of_def GetTopKCandidatesFromDatabase_def InitSketch_def Let_def)
  have "evolve_cross_overs ?ex [?s0] (Suc 0) [?s0] ?es = None"
    using sample_below_one [OF example_sampler_in_range, of "[]"]
      distinct_second_idx_never_returns [OF example_sampler_in_range, of "[]"]
    by (simp add: Let_def del: example_fields)
  then have b1: "SearchModuleExprBests ?ex ''task'' ?es ?one = None"
    by (simp add: SearchModuleExprBests_eq p1 Evolve_def)
  have r1: "SearchModuleExpr ?ex ''task'' ?es ?one = None"
    by (simp add: SearchModuleExpr_def b1)
  from p0 r0 p1 r1 show ?thesis by simp
qed

end
